theory Spec2Isabelle
  imports Complex_Main "HOL-Library.Sublist" "HOL-Library.Multiset"
begin

section \<open>Reward functions of the schedule trainer\<close>

text \<open>
  The notebook \<^verbatim>\<open>train_grpo\<close> defines three reward functions over the text a model
  produced: \<^verbatim>\<open>format_reward\<close> (a regular expression over the whole text),
  \<^verbatim>\<open>sorted_events_reward\<close> and \<^verbatim>\<open>score_reward\<close> (both over the event blocks
  that a second regular expression finds in the text). This theory embeds them:
  the two patterns as values of a small datatype of regular expressions, run by a
  backtracking matcher that lists its results in the order in which Python's
  \<^verbatim>\<open>re\<close> module tries them, and the reward functions as functions that return
  either a Python exception or a number.

  Python's \<^verbatim>\<open>str\<close> is modelled by \<^typ>\<open>string\<close>, whose characters are the
  code points below 256; Python's \<^verbatim>\<open>int\<close> by \<^typ>\<open>int\<close>; Python's
  \<^verbatim>\<open>float\<close> by \<^typ>\<open>real\<close>, so the rounding of a division is not modelled.
\<close>

subsection \<open>Exceptions\<close>

datatype py_error = ValueError | ZeroDivisionError

text \<open>A list comprehension whose element expression may raise: the first exception
  ends it.\<close>

fun mapE :: "('a \<Rightarrow> py_error + 'b) \<Rightarrow> 'a list \<Rightarrow> py_error + 'b list" where
  "mapE f [] = Inr []"
| "mapE f (x # xs) =
     (case f x of
        Inl e \<Rightarrow> Inl e
      | Inr y \<Rightarrow> (case mapE f xs of Inl e \<Rightarrow> Inl e | Inr ys \<Rightarrow> Inr (y # ys)))"

subsection \<open>Character classes\<close>

text \<open>\<^verbatim>\<open>\d\<close> on code points below 256: the ASCII digits.\<close>

definition is_digit :: "char \<Rightarrow> bool" where
  "is_digit c = (c \<in> set ''0123456789'')"

text \<open>\<^verbatim>\<open>\s\<close> on code points below 256: tab, line feed,
  vertical tab, form feed, carriage return, the separators 28 to 31, space, NEL (133)
  and the no-break space (160).\<close>

definition is_space :: "char \<Rightarrow> bool" where
  "is_space c = ((of_char c :: nat) \<in> set [9, 10, 11, 12, 13, 28, 29, 30, 31, 32, 133, 160])"

definition any_char :: "char \<Rightarrow> bool" where
  "any_char c = True"

definition not_lt :: "char \<Rightarrow> bool" where
  "not_lt c = (c \<noteq> CHR ''<'')"

subsection \<open>Time strings\<close>

text \<open>\<^verbatim>\<open>str.split(":")\<close>: the fields between the colons, at least one.\<close>

fun split_colon :: "string \<Rightarrow> string list" where
  "split_colon [] = [[]]"
| "split_colon (x # t) =
     (if x = CHR '':'' then [] # split_colon t
      else (case split_colon t of [] \<Rightarrow> [[x]] | p # ps \<Rightarrow> (x # p) # ps))"

fun split_underscore :: "string \<Rightarrow> string list" where
  "split_underscore [] = [[]]"
| "split_underscore (x # t) =
     (if x = CHR ''_'' then [] # split_underscore t
      else (case split_underscore t of [] \<Rightarrow> [[x]] | p # ps \<Rightarrow> (x # p) # ps))"

definition digit_value :: "char \<Rightarrow> int" where
  "digit_value c = of_char c - 48"

definition decimal_value :: "string \<Rightarrow> int" where
  "decimal_value ds = foldl (\<lambda>a d. 10 * a + digit_value d) 0 ds"

text \<open>The white space that \<^verbatim>\<open>int\<close> drops around a number, on code points below 256:
  tab to carriage return, space, NEL and the no-break space (not the separators 28 to 31,
  which \<^verbatim>\<open>\s\<close> matches).\<close>

definition is_int_space :: "char \<Rightarrow> bool" where
  "is_int_space c = ((of_char c :: nat) \<in> set [9, 10, 11, 12, 13, 32, 133, 160])"

definition strip :: "string \<Rightarrow> string" where
  "strip s = rev (dropWhile is_int_space (rev (dropWhile is_int_space s)))"

text \<open>\<^verbatim>\<open>int(text)\<close>: white space around the text is dropped, one sign may lead, and the
  rest is decimal digits in groups separated by single underscores; anything else raises
  \<^verbatim>\<open>ValueError\<close>. (The interpreter's limit on the number of digits, 4300 by default,
  is left out: no text that the reward functions convert is longer than two digits.)\<close>

definition unsigned_int :: "string \<Rightarrow> py_error + int" where
  "unsigned_int body =
     (let groups = split_underscore body
      in if list_all (\<lambda>g. g \<noteq> [] \<and> list_all is_digit g) groups
         then Inr (decimal_value (concat groups))
         else Inl ValueError)"

definition py_int :: "string \<Rightarrow> py_error + int" where
  "py_int text =
     (case strip text of
        [] \<Rightarrow> Inl ValueError
      | x # t \<Rightarrow>
          if x = CHR ''-'' then (case unsigned_int t of Inl e \<Rightarrow> Inl e | Inr v \<Rightarrow> Inr (- v))
          else if x = CHR ''+'' then unsigned_int t
          else unsigned_int (x # t))"

text \<open>\<^verbatim>\<open>hours, mins = map(int, time_str.split(":"))\<close>: unpacking anything but two
  fields raises \<^verbatim>\<open>ValueError\<close>, as does a field that is no integer.\<close>

definition time_to_minutes :: "string \<Rightarrow> py_error + int" where
  "time_to_minutes time_str =
     (case split_colon time_str of
        [h, m] \<Rightarrow>
          (case py_int h of
             Inl e \<Rightarrow> Inl e
           | Inr hours \<Rightarrow> (case py_int m of Inl e \<Rightarrow> Inl e | Inr mins \<Rightarrow> Inr (hours * 60 + mins)))
      | _ \<Rightarrow> Inl ValueError)"

subsection \<open>Regular expressions\<close>

datatype rx =
    Lit string
  | Cls "char \<Rightarrow> bool"
  | Seq rx rx
  | Star rx
  | Group nat rx

text \<open>The groups captured so far, the latest first.\<close>

type_synonym caps = "(nat \<times> string) list"

text \<open>
  \<open>run r s c\<close> lists every way in which \<open>r\<close> matches a prefix of \<open>s\<close>, as the
  captures and the rest of the text, in the order in which a backtracking matcher tries
  them: a starred expression is greedy, so the results of one more iteration come before
  the result of stopping. An iteration that consumes nothing is not continued; in both
  patterns below every starred expression consumes a character.
\<close>

fun run :: "rx \<Rightarrow> string \<Rightarrow> caps \<Rightarrow> (caps \<times> string) list" where
  "run (Lit w) s c = (if take (length w) s = w then [(c, drop (length w) s)] else [])"
| "run (Cls p) s c = (case s of [] \<Rightarrow> [] | x # t \<Rightarrow> if p x then [(c, t)] else [])"
| "run (Seq a b) s c = concat (map (\<lambda>(c', s'). run b s' c') (run a s c))"
| "run (Star a) s c =
     concat (map (\<lambda>(c', s'). if length s' < length s then run (Star a) s' c' else [])
                 (run a s c))
     @ [(c, s)]"
| "run (Group n a) s c =
     map (\<lambda>(c', s'). ((n, take (length s - length s') s) # c', s')) (run a s c)"

declare run.simps(4) [simp del]

fun seqs :: "rx list \<Rightarrow> rx" where
  "seqs [] = Lit []"
| "seqs [r] = r"
| "seqs (r # rs) = Seq r (seqs rs)"

text \<open>\<^verbatim>\<open>r+\<close> and \<^verbatim>\<open>r{n}\<close>\<close>

definition rx_plus :: "rx \<Rightarrow> rx" where
  "rx_plus r = Seq r (Star r)"

definition rx_times :: "nat \<Rightarrow> rx \<Rightarrow> rx" where
  "rx_times n r = seqs (replicate n r)"

text \<open>\<^verbatim>\<open>\d{2}:\d{2}\<close>\<close>

definition hhmm_rx :: rx where
  "hhmm_rx = seqs [rx_times 2 (Cls is_digit), Lit '':'', rx_times 2 (Cls is_digit)]"

text \<open>\<^verbatim>\<open><think>.+</think>.*<schedule>.*(<event>.*<name>.+</name>.*<start>\d{2}:\d{2}</start>.*<end>\d{2}:\d{2}</end>.*</event>)+.*</schedule>\<close>,
  compiled with \<^verbatim>\<open>re.DOTALL\<close>: the dot matches every character.\<close>

definition overall_event_rx :: rx where
  "overall_event_rx =
     Group 1 (seqs [Lit ''<event>'', Star (Cls any_char),
                    Lit ''<name>'', rx_plus (Cls any_char), Lit ''</name>'', Star (Cls any_char),
                    Lit ''<start>'', hhmm_rx, Lit ''</start>'', Star (Cls any_char),
                    Lit ''<end>'', hhmm_rx, Lit ''</end>'', Star (Cls any_char),
                    Lit ''</event>''])"

definition overall_regex :: rx where
  "overall_regex =
     seqs [Lit ''<think>'', rx_plus (Cls any_char), Lit ''</think>'', Star (Cls any_char),
           Lit ''<schedule>'', Star (Cls any_char),
           rx_plus overall_event_rx,
           Star (Cls any_char), Lit ''</schedule>'']"

text \<open>The capture pattern, compiled with \<^verbatim>\<open>re.VERBOSE\<close> (the white space of the
  pattern itself is no part of it):
  \<^verbatim>\<open><event>\s*<name>([^<]+)</name>\s*<start>(\d{2}:\d{2})</start>\s*<end>(\d{2}:\d{2})</end>\s*</event>\<close>\<close>

definition capture_regex :: rx where
  "capture_regex =
     seqs [Lit ''<event>'', Star (Cls is_space),
           Lit ''<name>'', Group 1 (rx_plus (Cls not_lt)), Lit ''</name>'', Star (Cls is_space),
           Lit ''<start>'', Group 2 hhmm_rx, Lit ''</start>'', Star (Cls is_space),
           Lit ''<end>'', Group 3 hhmm_rx, Lit ''</end>'', Star (Cls is_space),
           Lit ''</event>'']"

text \<open>\<^verbatim>\<open>regex.match(text)\<close> is a match object or \<^verbatim>\<open>None\<close>; the reward only tests
  which. The match starts at the first character and may end anywhere.\<close>

definition rx_match :: "rx \<Rightarrow> string \<Rightarrow> bool" where
  "rx_match r s = (run r s [] \<noteq> [])"

text \<open>\<^verbatim>\<open>regex.finditer(text)\<close>: at each position the first result of the matcher is
  the match; the search goes on where the match ended, or one character further where
  there is none. (A match of the empty text would go on one character further; the
  capture pattern has none.)\<close>

fun finditer :: "rx \<Rightarrow> string \<Rightarrow> caps list" where
  "finditer r s =
     (case run r s [] of
        [] \<Rightarrow> (case s of [] \<Rightarrow> [] | x # t \<Rightarrow> finditer r t)
      | (c, s') # _ \<Rightarrow>
          if length s' < length s then c # finditer r s'
          else (case s of [] \<Rightarrow> [c] | x # t \<Rightarrow> c # finditer r t))"

declare finditer.simps [simp del]

text \<open>\<^verbatim>\<open>match.group(n)\<close>; every group of the capture pattern takes part in every
  match, so the default is never returned for it.\<close>

definition group :: "caps \<Rightarrow> nat \<Rightarrow> string" where
  "group c n = (case map_of c n of None \<Rightarrow> [] | Some t \<Rightarrow> t)"

subsection \<open>The reward functions\<close>

type_synonym event = "string \<times> string \<times> string"

type_synonym event_minutes = "string \<times> int \<times> int"

definition get_events :: "string \<Rightarrow> event list" where
  "get_events content =
     map (\<lambda>m. (group m 1, group m 2, group m 3)) (finditer capture_regex content)"

definition format_ok :: "string \<Rightarrow> bool" where
  "format_ok response = rx_match overall_regex response"

definition format_reward :: "string list \<Rightarrow> real list" where
  "format_reward responses = map (\<lambda>response. if \<not> format_ok response then 0 else 10) responses"

text \<open>The events of the text that are entries of the reference list, as a set: each
  once. The list stands for the set in one order of iteration; \<open>score_order_irrelevant\<close>
  below shows that no other order gives another score.\<close>

definition existing_events :: "event list \<Rightarrow> string list list \<Rightarrow> event list" where
  "existing_events scheduled_events valid_events =
     remdups (filter (\<lambda>(n, s, e). [n, s, e] \<in> set valid_events) scheduled_events)"

definition event_to_minutes :: "event \<Rightarrow> py_error + event_minutes" where
  "event_to_minutes ev =
     (case ev of (n, s, e) \<Rightarrow>
        (case time_to_minutes s of
           Inl err \<Rightarrow> Inl err
         | Inr a \<Rightarrow> (case time_to_minutes e of Inl err \<Rightarrow> Inl err | Inr b \<Rightarrow> Inr (n, a, b))))"

text \<open>The test of the overlap loop on the events at positions \<open>j < k\<close>.\<close>

definition overlaps :: "event_minutes \<Rightarrow> event_minutes \<Rightarrow> bool" where
  "overlaps ej ek = (fst (snd ej) \<le> snd (snd ek) \<and> snd (snd ej) \<ge> fst (snd ek))"

fun inner_loop :: "event_minutes \<Rightarrow> event_minutes list \<Rightarrow> event_minutes set \<Rightarrow> event_minutes set" where
  "inner_loop ej [] acc = acc"
| "inner_loop ej (ek # rest) acc =
     inner_loop ej rest (if overlaps ej ek then insert ek (insert ej acc) else acc)"

fun outer_loop :: "event_minutes list \<Rightarrow> event_minutes set \<Rightarrow> event_minutes set" where
  "outer_loop [] acc = acc"
| "outer_loop (ej # rest) acc = outer_loop rest (inner_loop ej rest acc)"

definition overlapping_events :: "event_minutes list \<Rightarrow> event_minutes set" where
  "overlapping_events existing_events_minutes = outer_loop existing_events_minutes {}"

definition surviving_events :: "event_minutes list \<Rightarrow> event_minutes list" where
  "surviving_events existing_events_minutes =
     filter (\<lambda>ev. ev \<notin> overlapping_events existing_events_minutes) existing_events_minutes"

definition weight :: "string list \<Rightarrow> event_minutes \<Rightarrow> int" where
  "weight priorities ev =
     (if fst ev \<in> set priorities then 2 * (snd (snd ev) - fst (snd ev))
      else snd (snd ev) - fst (snd ev))"

definition weighted_sum :: "string list \<Rightarrow> event_minutes list \<Rightarrow> int" where
  "weighted_sum priorities evs = sum_list (map (weight priorities) evs)"

text \<open>The body of the loop of \<^verbatim>\<open>score_reward\<close>, from the extracted events on.\<close>

definition score_events :: "event list \<Rightarrow> string list list \<Rightarrow> string list \<Rightarrow> int \<Rightarrow> py_error + real" where
  "score_events scheduled_events valid_events priorities opt_score =
     (let existing = existing_events scheduled_events valid_events
      in if length existing < length scheduled_events \<or> length existing < 2 then Inr 0
         else (case mapE event_to_minutes existing of
                 Inl err \<Rightarrow> Inl err
               | Inr existing_events_minutes \<Rightarrow>
                   (let score = weighted_sum priorities (surviving_events existing_events_minutes)
                    in if opt_score = 0 then Inl ZeroDivisionError
                       else Inr (real_of_int score / real_of_int opt_score * 70))))"

definition score_content :: "string \<Rightarrow> string list list \<Rightarrow> string list \<Rightarrow> int \<Rightarrow> py_error + real" where
  "score_content content valid_events priorities opt_score =
     score_events (get_events content) valid_events priorities opt_score"

text \<open>\<^verbatim>\<open>score_reward\<close> over a batch: one score for each text, the lists zipped to the
  shortest. (The sample log that the function appends to a file at random is no part of
  what it returns.)\<close>

definition score_reward :: "string list \<Rightarrow> string list list list \<Rightarrow> string list list \<Rightarrow> int list \<Rightarrow> py_error + real list" where
  "score_reward responses events priority_events optimal_score =
     mapE (\<lambda>(content, valid_events, priorities, opt_score).
             score_content content valid_events priorities opt_score)
          (zip responses (zip events (zip priority_events optimal_score)))"

text \<open>\<^verbatim>\<open>all(xs[i] < xs[i + 1] for i in range(len(xs) - 1))\<close>\<close>

fun all_increasing :: "int list \<Rightarrow> bool" where
  "all_increasing (x # y # rest) = (x < y \<and> all_increasing (y # rest))"
| "all_increasing _ = True"

definition sorted_content :: "string \<Rightarrow> py_error + real" where
  "sorted_content response =
     (let scheduled_events = get_events response
      in if length scheduled_events < 2 then Inr 0
         else (case mapE event_to_minutes scheduled_events of
                 Inl err \<Rightarrow> Inl err
               | Inr scheduled_events_minutes \<Rightarrow>
                   if all_increasing (map (\<lambda>ev. fst (snd ev)) scheduled_events_minutes)
                   then Inr 20 else Inr 0))"

definition sorted_events_reward :: "string list \<Rightarrow> py_error + real list" where
  "sorted_events_reward responses = mapE sorted_content responses"


section \<open>Vocabulary of the properties\<close>

text \<open>The definitions of this section are no part of the program: they name the shapes
  of text and the sets of events that the properties speak of.\<close>

subsection \<open>Texts\<close>

text \<open>A time field as both patterns accept it: two digits, a colon, two digits.\<close>

definition is_hhmm :: "string \<Rightarrow> bool" where
  "is_hhmm t =
     (case t of
        [a, b, c, d, e] \<Rightarrow> is_digit a \<and> is_digit b \<and> c = CHR '':'' \<and> is_digit d \<and> is_digit e
      | _ \<Rightarrow> False)"

text \<open>The minutes that such a field stands for: sixty times the first two digits plus
  the last two.\<close>

definition hhmm_minutes :: "string \<Rightarrow> int" where
  "hhmm_minutes t =
     (case t of
        [a, b, c, d, e] \<Rightarrow> (10 * digit_value a + digit_value b) * 60 + (10 * digit_value d + digit_value e)
      | _ \<Rightarrow> 0)"

definition minutes_of :: "event \<Rightarrow> event_minutes" where
  "minutes_of ev = (case ev of (n, st, en) \<Rightarrow> (n, hhmm_minutes st, hhmm_minutes en))"

text \<open>The text of an event block with the name \<open>n\<close>, the times \<open>st\<close> and \<open>en\<close>, and
  \<open>x1\<close> to \<open>x4\<close> between the tags.\<close>

definition event_text :: "string \<Rightarrow> string \<Rightarrow> string \<Rightarrow> string \<Rightarrow> string \<Rightarrow> string \<Rightarrow> string \<Rightarrow> string" where
  "event_text x1 n x2 st x3 en x4 =
     ''<event>'' @ x1 @ ''<name>'' @ n @ ''</name>'' @ x2 @ ''<start>'' @ st @ ''</start>'' @ x3
     @ ''<end>'' @ en @ ''</end>'' @ x4 @ ''</event>''"

text \<open>What the capture pattern allows between the tags (white space only) and as a name
  (at least one character, none of them \<^verbatim>\<open><\<close>).\<close>

definition strict_space :: "string \<Rightarrow> bool" where
  "strict_space w = list_all is_space w"

definition strict_name :: "string \<Rightarrow> bool" where
  "strict_name n = (n \<noteq> [] \<and> list_all not_lt n)"

text \<open>A well-formed event block stands at the head of the text.\<close>

definition block_at_head :: "string \<Rightarrow> bool" where
  "block_at_head s =
     (\<exists>w1 n w2 st w3 en w4 rest.
        s = event_text w1 n w2 st w3 en w4 @ rest
        \<and> strict_space w1 \<and> strict_name n \<and> strict_space w2 \<and> is_hhmm st
        \<and> strict_space w3 \<and> is_hhmm en \<and> strict_space w4)"

definition event_ok :: "event \<Rightarrow> bool" where
  "event_ok ev = (case ev of (n, st, en) \<Rightarrow> strict_name n \<and> is_hhmm st \<and> is_hhmm en)"

text \<open>An event block as the pattern of the validator reads it: a name, a start time and
  an end time in that order, with any text between the tags.\<close>

definition loose_event_block :: "string \<Rightarrow> bool" where
  "loose_event_block b =
     (\<exists>x1 n x2 st x3 en x4. b = event_text x1 n x2 st x3 en x4 \<and> n \<noteq> [] \<and> is_hhmm st \<and> is_hhmm en)"

text \<open>A text that starts with a think block that is not empty, followed (after any
  text) by a schedule block that holds one event block or more.\<close>

definition well_formed_text :: "string \<Rightarrow> bool" where
  "well_formed_text text =
     (\<exists>t a b blocks c d.
        text = ''<think>'' @ t @ ''</think>'' @ a @ ''<schedule>'' @ b @ concat blocks @ c
               @ ''</schedule>'' @ d
        \<and> t \<noteq> [] \<and> blocks \<noteq> [] \<and> list_all loose_event_block blocks)"

text \<open>A text made of pieces: well-formed event blocks and stretches of other text
  without \<^verbatim>\<open><\<close>; and the events that its blocks name.\<close>

datatype piece = Junk string | Block string string string string string string string

fun render :: "piece \<Rightarrow> string" where
  "render (Junk j) = j"
| "render (Block w1 n w2 st w3 en w4) = event_text w1 n w2 st w3 en w4"

fun piece_ok :: "piece \<Rightarrow> bool" where
  "piece_ok (Junk j) = (CHR ''<'' \<notin> set j)"
| "piece_ok (Block w1 n w2 st w3 en w4) =
     (strict_space w1 \<and> strict_name n \<and> strict_space w2 \<and> is_hhmm st \<and> strict_space w3
      \<and> is_hhmm en \<and> strict_space w4)"

fun triples :: "piece \<Rightarrow> event list" where
  "triples (Junk j) = []"
| "triples (Block w1 n w2 st w3 en w4) = [(n, st, en)]"

fun has_substring :: "string \<Rightarrow> string \<Rightarrow> bool" where
  "has_substring w [] = (w = [])"
| "has_substring w (x # t) = (take (length w) (x # t) = w \<or> has_substring w t)"

definition contains_event_block :: "string \<Rightarrow> bool" where
  "contains_event_block text = (\<exists>u b v. text = u @ b @ v \<and> loose_event_block b)"

subsection \<open>The language of a regular expression\<close>

inductive_set star_lang :: "string set \<Rightarrow> string set" for A :: "string set" where
  star_nil: "[] \<in> star_lang A"
| star_step: "u \<in> A \<Longrightarrow> v \<in> star_lang A \<Longrightarrow> u @ v \<in> star_lang A"

fun lang :: "rx \<Rightarrow> string set" where
  "lang (Lit w) = {w}"
| "lang (Cls p) = {[x] | x. p x}"
| "lang (Seq a b) = {u @ v | u v. u \<in> lang a \<and> v \<in> lang b}"
| "lang (Star a) = star_lang (lang a)"
| "lang (Group n a) = lang a"

subsection \<open>Overlaps and the optimum\<close>

text \<open>The events that the overlap loop collects, from the multiset of the events: those
  that overlap another occurrence.\<close>

definition ov :: "event_minutes multiset \<Rightarrow> event_minutes set" where
  "ov M = {z. z \<in># M \<and> (\<exists>y. y \<in># M - {#z#} \<and> overlaps z y)}"

text \<open>An entry of the reference list as an event in minutes, where it has a name and
  two times that convert.\<close>

definition reference_event :: "string list \<Rightarrow> event_minutes option" where
  "reference_event entry =
     (case entry of
        [n, s, e] \<Rightarrow>
          (case time_to_minutes s of
             Inl err \<Rightarrow> None
           | Inr a \<Rightarrow> (case time_to_minutes e of Inl err \<Rightarrow> None | Inr b \<Rightarrow> Some (n, a, b)))
      | _ \<Rightarrow> None)"

text \<open>The invariant of the events of a reference set: every entry is an event that ends
  after it starts.\<close>

definition reference_ok :: "string list list \<Rightarrow> bool" where
  "reference_ok valid_events =
     list_all (\<lambda>entry. case reference_event entry of
                          None \<Rightarrow> False
                        | Some ev \<Rightarrow> fst (snd ev) < snd (snd ev))
              valid_events"

definition reference_events :: "string list list \<Rightarrow> event_minutes list" where
  "reference_events valid_events = remdups (List.map_filter reference_event valid_events)"

text \<open>The conflict rule of the specification: the intervals share more than a point.\<close>

definition spec_conflict :: "event_minutes \<Rightarrow> event_minutes \<Rightarrow> bool" where
  "spec_conflict a b = (fst (snd a) < snd (snd b) \<and> fst (snd b) < snd (snd a))"

fun conflict_free :: "event_minutes list \<Rightarrow> bool" where
  "conflict_free [] = True"
| "conflict_free (x # xs) = (list_all (\<lambda>y. \<not> spec_conflict x y) xs \<and> conflict_free xs)"

text \<open>The largest weighted sum of a conflict-free subset of the reference events.\<close>

definition true_optimum :: "string list list \<Rightarrow> string list \<Rightarrow> int" where
  "true_optimum valid_events priorities =
     Max (set (map (weighted_sum priorities)
                   (filter conflict_free (subseqs (reference_events valid_events)))))"

subsection \<open>The documented example\<close>

definition nl :: string where
  "nl = [CHR 0x0A]"

definition fixture_events :: "string list list" where
  "fixture_events =
     [[''Backstage tour VIP pass'', ''01:06'', ''01:21''],
      [''Sum 41 concert'', ''14:57'', ''15:27''],
      [''Korean BBQ food trucks'', ''16:21'', ''17:51''],
      [''Fireworks'', ''08:48'', ''10:48''],
      [''Jam session'', ''14:31'', ''15:31'']]"

definition fixture_priorities :: "string list" where
  "fixture_priorities = [''Sum 41 concert'']"

text \<open>A text in the format that the prompt asks for, with the second and the third
  event of the example.\<close>

definition candidate_B_C :: string where
  "candidate_B_C =
     ''<think>B then C</think>'' @ nl @ ''<schedule>'' @ nl
     @ event_text nl ''Sum 41 concert'' nl ''14:57'' nl ''15:27'' nl @ nl
     @ event_text nl ''Korean BBQ food trucks'' nl ''16:21'' nl ''17:51'' nl @ nl
     @ ''</schedule>''"

text \<open>The same with an event that is no reference event in second place, and with the
  first event repeated at the end.\<close>

definition candidate_ghost :: string where
  "candidate_ghost =
     ''<think>B then a guess</think>'' @ nl @ ''<schedule>'' @ nl
     @ event_text nl ''Sum 41 concert'' nl ''14:57'' nl ''15:27'' nl @ nl
     @ event_text nl ''Secret show'' nl ''18:00'' nl ''19:00'' nl @ nl
     @ ''</schedule>''"

definition candidate_B_C_B :: string where
  "candidate_B_C_B =
     ''<think>B, C and B again</think>'' @ nl @ ''<schedule>'' @ nl
     @ event_text nl ''Sum 41 concert'' nl ''14:57'' nl ''15:27'' nl @ nl
     @ event_text nl ''Korean BBQ food trucks'' nl ''16:21'' nl ''17:51'' nl @ nl
     @ event_text nl ''Sum 41 concert'' nl ''14:57'' nl ''15:27'' nl @ nl
     @ ''</schedule>''"

text \<open>Three events in minutes, the first ending where the second starts.\<close>

definition touching_events :: "event_minutes list" where
  "touching_events = [(''A'', 600, 660), (''B'', 660, 720), (''C'', 780, 840)]"

text \<open>The two events in the other order; a schedule without events; the first text
  without the closing schedule tag; and a text with two malformed blocks (a start time of
  one digit, a block without times) among two well-formed ones.\<close>

definition candidate_C_B :: string where
  "candidate_C_B =
     ''<think>C then B</think>'' @ nl @ ''<schedule>'' @ nl
     @ event_text nl ''Korean BBQ food trucks'' nl ''16:21'' nl ''17:51'' nl @ nl
     @ event_text nl ''Sum 41 concert'' nl ''14:57'' nl ''15:27'' nl @ nl
     @ ''</schedule>''"

definition candidate_no_events :: string where
  "candidate_no_events = ''<think>nothing fits</think>'' @ nl @ ''<schedule>'' @ nl @ ''</schedule>''"

definition candidate_unclosed :: string where
  "candidate_unclosed =
     ''<think>B then C</think>'' @ nl @ ''<schedule>'' @ nl
     @ event_text nl ''Sum 41 concert'' nl ''14:57'' nl ''15:27'' nl @ nl
     @ event_text nl ''Korean BBQ food trucks'' nl ''16:21'' nl ''17:51'' nl @ nl"

definition candidate_bad_block :: string where
  "candidate_bad_block =
     ''<schedule>'' @ event_text [] ''Fireworks'' [] ''8:48'' [] ''10:48'' []
     @ event_text nl ''Sum 41 concert'' nl ''14:57'' nl ''15:27'' nl
     @ ''<event><name>Jam session</name></event>''
     @ event_text nl ''Korean BBQ food trucks'' nl ''16:21'' nl ''17:51'' nl"

text \<open>Four reference events: B starts where A ends, D lies between A and C and touches
  neither.\<close>

definition ev_A :: event where
  "ev_A = (''A'', ''10:00'', ''11:00'')"

definition ev_B :: event where
  "ev_B = (''B'', ''11:00'', ''12:00'')"

definition ev_C :: event where
  "ev_C = (''C'', ''13:00'', ''14:00'')"

definition ev_D :: event where
  "ev_D = (''D'', ''11:30'', ''12:30'')"

definition abcd_events :: "string list list" where
  "abcd_events = [[''A'', ''10:00'', ''11:00''], [''B'', ''11:00'', ''12:00''],
                  [''C'', ''13:00'', ''14:00''], [''D'', ''11:30'', ''12:30'']]"

text \<open>Two blocks between stretches of plain text.\<close>

definition pieces_B_C :: "piece list" where
  "pieces_B_C =
     [Junk ''first '', Block nl ''Sum 41 concert'' nl ''14:57'' nl ''15:27'' nl,
      Junk '' and then '', Block [] ''Korean BBQ food trucks'' [] ''16:21'' [] ''17:51'' [],
      Junk ''.'']"


section \<open>Lemmas\<close>

subsection \<open>The matcher and the language of an expression\<close>

lemma in_run_Lit: "(c', s') \<in> set (run (Lit w) s c) \<longleftrightarrow> c' = c \<and> s = w @ s'"
proof -
  have "take (length w) s = w \<and> s' = drop (length w) s \<longleftrightarrow> s = w @ s'"
    by (metis append_eq_conv_conj)
  then show ?thesis by auto
qed

lemma in_run_Cls: "(c', s') \<in> set (run (Cls p) s c) \<longleftrightarrow> c' = c \<and> (\<exists>x. s = x # s' \<and> p x)"
  by (cases s) auto

lemma in_run_Seq:
  "(c', s') \<in> set (run (Seq a b) s c) \<longleftrightarrow>
     (\<exists>c1 s1. (c1, s1) \<in> set (run a s c) \<and> (c', s') \<in> set (run b s1 c1))"
  by auto

lemma in_run_Group:
  "(c', s') \<in> set (run (Group n a) s c) \<longleftrightarrow>
     (\<exists>c1. (c1, s') \<in> set (run a s c) \<and> c' = (n, take (length s - length s') s) # c1)"
  by auto

lemma in_run_Star:
  "(c', s') \<in> set (run (Star a) s c) \<longleftrightarrow>
     (c' = c \<and> s' = s) \<or>
     (\<exists>c1 s1. (c1, s1) \<in> set (run a s c) \<and> length s1 < length s \<and> (c', s') \<in> set (run (Star a) s1 c1))"
  by (subst run.simps(4)) auto

lemma in_run_Star_step:
  "(c1, s1) \<in> set (run a s c) \<Longrightarrow> length s1 < length s \<Longrightarrow>
   (c', s') \<in> set (run (Star a) s1 c1) \<Longrightarrow> (c', s') \<in> set (run (Star a) s c)"
  by (subst in_run_Star) blast

lemma in_run_Star_Cls:
  "(c', s') \<in> set (run (Star (Cls p)) s c) \<longleftrightarrow> c' = c \<and> (\<exists>u. s = u @ s' \<and> list_all p u)"
proof (induction s arbitrary: c' s')
  case Nil
  show ?case by (subst in_run_Star) (auto simp: in_run_Cls)
next
  case (Cons x t)
  show ?case
  proof
    assume "(c', s') \<in> set (run (Star (Cls p)) (x # t) c)"
    then consider "c' = c \<and> s' = x # t" | "p x \<and> (c', s') \<in> set (run (Star (Cls p)) t c)"
      by (subst (asm) in_run_Star) (auto simp: in_run_Cls)
    then show "c' = c \<and> (\<exists>u. x # t = u @ s' \<and> list_all p u)"
    proof cases
      case 1
      then show ?thesis by auto
    next
      case 2
      with Cons.IH obtain u where "c' = c" "t = u @ s'" "list_all p u" by blast
      then have "x # t = (x # u) @ s' \<and> list_all p (x # u)" using 2 by simp
      with \<open>c' = c\<close> show ?thesis by blast
    qed
  next
    assume a: "c' = c \<and> (\<exists>u. x # t = u @ s' \<and> list_all p u)"
    then obtain u where u: "x # t = u @ s'" "list_all p u" by blast
    show "(c', s') \<in> set (run (Star (Cls p)) (x # t) c)"
    proof (cases u)
      case Nil
      with u a show ?thesis by (subst in_run_Star) simp
    next
      case (Cons y v)
      with u have "y = x" "t = v @ s'" "p x" "list_all p v" by auto
      with Cons.IH a have "(c', s') \<in> set (run (Star (Cls p)) t c)" by blast
      with \<open>p x\<close> show ?thesis by (subst in_run_Star) (auto simp: in_run_Cls)
    qed
  qed
qed

lemma run_sound: "(c', s') \<in> set (run r s c) \<Longrightarrow> \<exists>u \<in> lang r. s = u @ s'"
proof (induction r s c arbitrary: c' s' rule: run.induct)
  case (1 w s c)
  from "1.prems" have "s = w @ s'" by (simp only: in_run_Lit)
  then show ?case by simp
next
  case (2 p s c)
  then show ?case by (auto simp: in_run_Cls)
next
  case (3 a b s c)
  from "3.prems" obtain c1 s1 where m: "(c1, s1) \<in> set (run a s c)" "(c', s') \<in> set (run b s1 c1)"
    by (auto simp: in_run_Seq)
  from "3.IH"(1)[OF m(1)] obtain u where u: "u \<in> lang a" "s = u @ s1" by blast
  from "3.IH"(2)[OF m(1) refl m(2)] obtain v where v: "v \<in> lang b" "s1 = v @ s'" by blast
  from u v have "u @ v \<in> lang (Seq a b)" "s = (u @ v) @ s'" by auto
  then show ?case by blast
next
  case (4 a s c)
  from "4.prems" consider "c' = c \<and> s' = s"
    | c1 s1 where "(c1, s1) \<in> set (run a s c)" "length s1 < length s" "(c', s') \<in> set (run (Star a) s1 c1)"
    by (subst (asm) in_run_Star) blast
  then show ?case
  proof cases
    case 1
    have "[] \<in> lang (Star a)" by (simp add: star_nil)
    with 1 show ?thesis by force
  next
    case 2
    from "4.IH"(1)[OF 2(1)] obtain u where u: "u \<in> lang a" "s = u @ s1" by blast
    from "4.IH"(2)[OF 2(1) refl 2(2) 2(3)] obtain v where v: "v \<in> lang (Star a)" "s1 = v @ s'" by blast
    from u v have "u @ v \<in> lang (Star a)" "s = (u @ v) @ s'" by (auto intro: star_step)
    then show ?thesis by blast
  qed
next
  case (5 n a s c)
  then show ?case by (auto simp: in_run_Group)
qed

lemma star_lang_cases_nonempty:
  "w \<in> star_lang A \<Longrightarrow> w = [] \<or> (\<exists>u v. w = u @ v \<and> u \<noteq> [] \<and> u \<in> A \<and> v \<in> star_lang A)"
proof (induction rule: star_lang.induct)
  case star_nil
  show ?case by simp
next
  case (star_step u v)
  show ?case
  proof (cases "u = []")
    case True
    with star_step.IH show ?thesis by simp
  next
    case False
    with star_step.hyps show ?thesis by blast
  qed
qed

lemma run_complete: "u \<in> lang r \<Longrightarrow> \<exists>c'. (c', s') \<in> set (run r (u @ s') c)"
proof (induction r arbitrary: u s' c)
  case (Lit w)
  then have "(c, s') \<in> set (run (Lit w) (u @ s') c)" by (simp only: in_run_Lit lang.simps) simp
  then show ?case by blast
next
  case (Cls p)
  then show ?case by (auto simp: in_run_Cls)
next
  case (Seq a b)
  from Seq.prems obtain v w where vw: "u = v @ w" "v \<in> lang a" "w \<in> lang b" by auto
  from Seq.IH(1)[OF vw(2), of "w @ s'" c] obtain c1 where c1: "(c1, w @ s') \<in> set (run a (v @ w @ s') c)" by blast
  from Seq.IH(2)[OF vw(3), of s' c1] obtain c2 where "(c2, s') \<in> set (run b (w @ s') c1)" by blast
  with c1 vw show ?case by (auto simp: in_run_Seq)
next
  case (Star a)
  from Star.prems have "u \<in> star_lang (lang a)" by simp
  then show ?case
  proof (induction u arbitrary: c rule: length_induct)
    case (1 w)
    from star_lang_cases_nonempty[OF "1.prems"]
    consider "w = []" | u v where "w = u @ v" "u \<noteq> []" "u \<in> lang a" "v \<in> star_lang (lang a)" by blast
    then show ?case
    proof cases
      case 1
      then show ?thesis by (subst in_run_Star) auto
    next
      case 2
      from Star.IH[OF 2(3), of "v @ s'" c] obtain c1 where c1: "(c1, v @ s') \<in> set (run a (u @ v @ s') c)" by blast
      from 2 have "length v < length w" by simp
      with "1.IH" 2(4) obtain c2 where "(c2, s') \<in> set (run (Star a) (v @ s') c1)" by blast
      then have c2: "(c2, s') \<in> set (run (Star a) (v @ s') c1)" .
      from 2 have len: "length (v @ s') < length (w @ s')" by simp
      from c1 2(1) have "(c1, v @ s') \<in> set (run a (w @ s') c)" by simp
      from in_run_Star_step[OF this len c2] have "(c2, s') \<in> set (run (Star a) (w @ s') c)" .
      then show ?thesis by blast
    qed
  qed
next
  case (Group n a)
  from Group.prems have "u \<in> lang a" by simp
  from Group.IH[OF this, of s' c] obtain c1 where "(c1, s') \<in> set (run a (u @ s') c)" by blast
  then have "((n, take (length (u @ s') - length s') (u @ s')) # c1, s') \<in> set (run (Group n a) (u @ s') c)"
    by (simp only: in_run_Group) blast
  then show ?case by blast
qed

lemma rx_match_iff: "rx_match r s \<longleftrightarrow> (\<exists>u \<in> lang r. \<exists>v. s = u @ v)"
proof
  assume "rx_match r s"
  then obtain c' s' where "(c', s') \<in> set (run r s [])"
    by (cases "run r s []") (auto simp: rx_match_def)
  from run_sound[OF this] show "\<exists>u \<in> lang r. \<exists>v. s = u @ v" by blast
next
  assume "\<exists>u \<in> lang r. \<exists>v. s = u @ v"
  then obtain u v where "u \<in> lang r" "s = u @ v" by blast
  with run_complete[of u r v "[]"] show "rx_match r s" by (auto simp: rx_match_def)
qed

subsection \<open>The language of the pattern of the validator\<close>

lemma is_hhmm_iff:
  "is_hhmm t \<longleftrightarrow> (\<exists>a b d e. t = [a, b, CHR '':'', d, e] \<and> is_digit a \<and> is_digit b \<and> is_digit d \<and> is_digit e)"
  by (auto simp: is_hhmm_def split: list.splits)

lemma in_lang_Seq: "w \<in> lang (Seq a b) \<longleftrightarrow> (\<exists>u v. w = u @ v \<and> u \<in> lang a \<and> v \<in> lang b)"
  by auto

lemma lang_SeqI: "u \<in> lang a \<Longrightarrow> v \<in> lang b \<Longrightarrow> u @ v \<in> lang (Seq a b)"
  by auto

lemma in_lang_Lit: "w \<in> lang (Lit l) \<longleftrightarrow> w = l"
  by simp

lemma in_lang_Cls: "w \<in> lang (Cls p) \<longleftrightarrow> (\<exists>x. w = [x] \<and> p x)"
  by simp

lemma in_lang_Group: "w \<in> lang (Group n a) \<longleftrightarrow> w \<in> lang a"
  by simp

lemma in_lang_hhmm: "w \<in> lang hhmm_rx \<longleftrightarrow> is_hhmm w"
proof
  assume "w \<in> lang hhmm_rx"
  then show "is_hhmm w"
    unfolding hhmm_rx_def rx_times_def numeral_2_eq_2 replicate.simps seqs.simps
      in_lang_Seq in_lang_Lit in_lang_Cls is_hhmm_iff
    by auto
next
  assume "is_hhmm w"
  then obtain a b d e where w: "w = ([a] @ [b]) @ '':'' @ [d] @ [e]"
    and dg: "is_digit a" "is_digit b" "is_digit d" "is_digit e"
    by (auto simp: is_hhmm_iff)
  have D: "[x] \<in> lang (Cls is_digit)" if "is_digit x" for x using that by simp
  show "w \<in> lang hhmm_rx"
    unfolding hhmm_rx_def rx_times_def numeral_2_eq_2 replicate.simps seqs.simps w
    by (intro lang_SeqI D dg) simp
qed

lemma in_lang_any_star: "w \<in> lang (Star (Cls any_char))"
proof (induction w)
  case Nil
  show ?case by (simp add: star_nil)
next
  case (Cons x w)
  have "[x] \<in> lang (Cls any_char)" by (simp add: any_char_def)
  with Cons have "[x] @ w \<in> star_lang (lang (Cls any_char))" by (intro star_step) simp_all
  then show ?case by simp
qed

lemma in_lang_any_plus: "w \<in> lang (rx_plus (Cls any_char)) \<longleftrightarrow> w \<noteq> []"
proof
  assume "w \<in> lang (rx_plus (Cls any_char))"
  then show "w \<noteq> []" unfolding rx_plus_def in_lang_Seq in_lang_Cls by auto
next
  assume "w \<noteq> []"
  then obtain x v where w: "w = [x] @ v" by (cases w) auto
  have "[x] \<in> lang (Cls any_char)" by (simp add: any_char_def)
  then show "w \<in> lang (rx_plus (Cls any_char))"
    unfolding rx_plus_def w by (intro lang_SeqI in_lang_any_star)
qed

lemma in_lang_overall_event: "b \<in> lang overall_event_rx \<longleftrightarrow> loose_event_block b"
proof
  assume "b \<in> lang overall_event_rx"
  then show "loose_event_block b"
    unfolding overall_event_rx_def seqs.simps in_lang_Group in_lang_Seq in_lang_Lit
      in_lang_any_plus in_lang_hhmm loose_event_block_def event_text_def
    by blast
next
  assume "loose_event_block b"
  then obtain x1 n x2 st x3 en x4 where b: "b = event_text x1 n x2 st x3 en x4"
    and wf: "n \<noteq> []" "is_hhmm st" "is_hhmm en"
    by (auto simp: loose_event_block_def)
  have L: "l \<in> lang (Lit l)" for l by simp
  from wf have n: "n \<in> lang (rx_plus (Cls any_char))" and st: "st \<in> lang hhmm_rx" and en: "en \<in> lang hhmm_rx"
    using in_lang_any_plus in_lang_hhmm by blast+
  show "b \<in> lang overall_event_rx"
    unfolding overall_event_rx_def seqs.simps in_lang_Group b event_text_def
    by (intro lang_SeqI L in_lang_any_star n st en)
qed

lemma star_lang_concat: "w \<in> star_lang A \<longleftrightarrow> (\<exists>bs. w = concat bs \<and> list_all (\<lambda>b. b \<in> A) bs)"
proof
  assume "w \<in> star_lang A"
  then show "\<exists>bs. w = concat bs \<and> list_all (\<lambda>b. b \<in> A) bs"
  proof (induction rule: star_lang.induct)
    case star_nil
    have "[] = concat [] \<and> list_all (\<lambda>b. b \<in> A) []" by simp
    then show ?case by blast
  next
    case (star_step u v)
    then obtain bs where "v = concat bs" "list_all (\<lambda>b. b \<in> A) bs" by blast
    with star_step.hyps have "u @ v = concat (u # bs) \<and> list_all (\<lambda>b. b \<in> A) (u # bs)" by simp
    then show ?case by blast
  qed
next
  assume "\<exists>bs. w = concat bs \<and> list_all (\<lambda>b. b \<in> A) bs"
  then obtain bs where "w = concat bs" "list_all (\<lambda>b. b \<in> A) bs" by blast
  then show "w \<in> star_lang A"
  proof (induction bs arbitrary: w)
    case Nil
    then show ?case by (simp add: star_nil)
  next
    case (Cons b bs)
    then show ?case by (auto intro: star_step)
  qed
qed

lemma in_lang_plus:
  "w \<in> lang (rx_plus r) \<longleftrightarrow> (\<exists>bs. bs \<noteq> [] \<and> w = concat bs \<and> list_all (\<lambda>b. b \<in> lang r) bs)"
proof
  assume "w \<in> lang (rx_plus r)"
  then obtain u v where "w = u @ v" "u \<in> lang r" "v \<in> star_lang (lang r)"
    by (auto simp: rx_plus_def)
  then obtain bs where "v = concat bs" "list_all (\<lambda>b. b \<in> lang r) bs"
    by (auto simp: star_lang_concat)
  with \<open>w = u @ v\<close> \<open>u \<in> lang r\<close>
  have "u # bs \<noteq> [] \<and> w = concat (u # bs) \<and> list_all (\<lambda>b. b \<in> lang r) (u # bs)" by simp
  then show "\<exists>bs. bs \<noteq> [] \<and> w = concat bs \<and> list_all (\<lambda>b. b \<in> lang r) bs" by blast
next
  assume "\<exists>bs. bs \<noteq> [] \<and> w = concat bs \<and> list_all (\<lambda>b. b \<in> lang r) bs"
  then obtain b bs where w: "w = b @ concat bs" and b: "b \<in> lang r" and bs: "list_all (\<lambda>b. b \<in> lang r) bs"
    by (auto simp: neq_Nil_conv)
  from bs have "concat bs \<in> star_lang (lang r)" by (auto simp: star_lang_concat)
  with b show "w \<in> lang (rx_plus r)" unfolding w rx_plus_def by (intro lang_SeqI) simp_all
qed

lemma format_ok_iff: "format_ok text \<longleftrightarrow> well_formed_text text"
proof
  assume "format_ok text"
  then obtain u d where u: "u \<in> lang overall_regex" and tx: "text = u @ d"
    by (auto simp: format_ok_def rx_match_iff)
  from u obtain t a b bl c where
    ueq: "u = ''<think>'' @ t @ ''</think>'' @ a @ ''<schedule>'' @ b @ bl @ c @ ''</schedule>''"
    and t: "t \<noteq> []" and bl: "bl \<in> lang (rx_plus overall_event_rx)"
    unfolding overall_regex_def seqs.simps in_lang_Seq in_lang_Lit in_lang_any_plus
    by blast
  from bl obtain blocks where blocks: "blocks \<noteq> []" "bl = concat blocks" "list_all loose_event_block blocks"
    unfolding in_lang_plus in_lang_overall_event by blast
  have "text = ''<think>'' @ t @ ''</think>'' @ a @ ''<schedule>'' @ b @ concat blocks @ c
               @ ''</schedule>'' @ d"
    unfolding tx ueq blocks(2) by simp
  with t blocks(1,3) show "well_formed_text text"
    unfolding well_formed_text_def by blast
next
  assume "well_formed_text text"
  then obtain t a b blocks c d where
    tx: "text = (''<think>'' @ t @ ''</think>'' @ a @ ''<schedule>'' @ b @ concat blocks @ c @ ''</schedule>'') @ d"
    and wf: "t \<noteq> []" "blocks \<noteq> []" "list_all loose_event_block blocks"
    by (auto simp: well_formed_text_def)
  have L: "l \<in> lang (Lit l)" for l by simp
  from wf(1) have t: "t \<in> lang (rx_plus (Cls any_char))" using in_lang_any_plus by blast
  from wf(2,3) have bl: "concat blocks \<in> lang (rx_plus overall_event_rx)"
    unfolding in_lang_plus in_lang_overall_event by blast
  have "''<think>'' @ t @ ''</think>'' @ a @ ''<schedule>'' @ b @ concat blocks @ c @ ''</schedule>''
          \<in> lang overall_regex"
    unfolding overall_regex_def seqs.simps
    by (intro lang_SeqI L in_lang_any_star t bl)
  then show "format_ok text"
    unfolding format_ok_def rx_match_iff tx by blast
qed

subsection \<open>Exact results of greedy repetition\<close>

lemma run_Star_Cls_Nil: "run (Star (Cls p)) [] c = [(c, [])]"
  by (simp add: run.simps(4))

lemma run_Star_Cls_Cons:
  "run (Star (Cls p)) (x # t) c = (if p x then run (Star (Cls p)) t c @ [(c, x # t)] else [(c, x # t)])"
  by (simp add: run.simps(4))

lemma run_Seq_Lit:
  "run (Seq (Lit w) r) s c = (if take (length w) s = w then run r (drop (length w) s) c else [])"
  by simp

lemma run_Seq_Star_Cls:
  assumes "\<And>x t c. p x \<Longrightarrow> run r (x # t) c = []"
  shows "run (Seq (Star (Cls p)) r) s c = run r (dropWhile p s) c"
proof (induction s)
  case Nil
  show ?case by (simp add: run_Star_Cls_Nil)
next
  case (Cons x t)
  show ?case
  proof (cases "p x")
    case True
    have "run (Seq (Star (Cls p)) r) (x # t) c = run (Seq (Star (Cls p)) r) t c @ run r (x # t) c"
      using True by (simp add: run_Star_Cls_Cons)
    also have "\<dots> = run r (dropWhile p t) c" using Cons assms[OF True] by simp
    finally show ?thesis using True by simp
  next
    case False
    then show ?thesis by (simp add: run_Star_Cls_Cons)
  qed
qed

lemma run_Star_Cls_capture:
  assumes "\<And>x t c. p x \<Longrightarrow> run r (x # t) c = []"
  shows "concat (map (\<lambda>(c', s'). run r s' ((n, take (length (pre @ t) - length s') (pre @ t)) # c'))
                     (run (Star (Cls p)) t c))
         = run r (dropWhile p t) ((n, pre @ takeWhile p t) # c)"
proof (induction t arbitrary: pre)
  case Nil
  show ?case by (simp add: run_Star_Cls_Nil)
next
  case (Cons y t)
  show ?case
  proof (cases "p y")
    case True
    from Cons[of "pre @ [y]"] assms[OF True] True show ?thesis
      by (simp add: run_Star_Cls_Cons)
  next
    case False
    then show ?thesis by (simp add: run_Star_Cls_Cons)
  qed
qed

lemma run_Seq_Group_plus_Cls:
  assumes "\<And>x t c. p x \<Longrightarrow> run r (x # t) c = []"
  shows "run (Seq (Group n (rx_plus (Cls p))) r) s c
         = (if takeWhile p s = [] then [] else run r (dropWhile p s) ((n, takeWhile p s) # c))"
proof (cases s)
  case Nil
  then show ?thesis by (simp add: rx_plus_def)
next
  case (Cons x t)
  show ?thesis
  proof (cases "p x")
    case True
    have "run (Seq (Group n (rx_plus (Cls p))) r) (x # t) c
          = concat (map (\<lambda>(c', s'). run r s' ((n, take (length ([x] @ t) - length s') ([x] @ t)) # c'))
                     (run (Star (Cls p)) t c))"
      using True by (simp add: rx_plus_def map_concat comp_def case_prod_unfold)
    also have "\<dots> = run r (dropWhile p t) ((n, [x] @ takeWhile p t) # c)"
      by (rule run_Star_Cls_capture[OF assms])
    finally show ?thesis using True Cons by simp
  next
    case False
    then show ?thesis using Cons by (simp add: rx_plus_def)
  qed
qed

lemma list5_cases:
  obtains "s = []" | a where "s = [a]" | a b where "s = [a, b]" | a b x where "s = [a, b, x]"
    | a b x d where "s = [a, b, x, d]" | a b x d e t where "s = a # b # x # d # e # t"
  by (metis list.exhaust)

lemma run_hhmm: "run hhmm_rx s c = (if is_hhmm (take 5 s) then [(c, drop 5 s)] else [])"
  by (cases s rule: list5_cases)
     (auto simp: hhmm_rx_def rx_times_def numeral_2_eq_2 is_hhmm_def)

lemma is_hhmm_length: "is_hhmm t \<Longrightarrow> length t = 5"
  by (auto simp: is_hhmm_iff)

lemma run_Seq_Group_hhmm:
  "run (Seq (Group n hhmm_rx) r) s c
   = (if is_hhmm (take 5 s) then run r (drop 5 s) ((n, take 5 s) # c) else [])"
proof (cases "is_hhmm (take 5 s)")
  case True
  from is_hhmm_length[OF True] have "5 \<le> length s" by simp
  then have "take (length s - (length s - 5)) s = take 5 s" by simp
  with True show ?thesis by (simp add: run_hhmm)
next
  case False
  then show ?thesis by (simp add: run_hhmm)
qed

subsection \<open>The capture pattern on a well-formed block\<close>

lemma not_space_lt: "\<not> is_space CHR ''<''"
  by (simp add: is_space_def)

lemma not_not_lt_lt: "\<not> not_lt CHR ''<''"
  by (simp add: not_lt_def)

lemma run_Lit: "run (Lit w) s c = (if take (length w) s = w then [(c, drop (length w) s)] else [])"
  by simp

lemma run_tag_rejects:
  "x \<noteq> CHR ''<'' \<Longrightarrow> run (Lit (CHR ''<'' # w)) (x # t) c = []"
  "x \<noteq> CHR ''<'' \<Longrightarrow> run (Seq (Lit (CHR ''<'' # w)) r) (x # t) c = []"
  by simp_all

lemma skip_space_tag:
  "run (Seq (Star (Cls is_space)) (Lit (CHR ''<'' # w))) s c
   = run (Lit (CHR ''<'' # w)) (dropWhile is_space s) c"
  "run (Seq (Star (Cls is_space)) (Seq (Lit (CHR ''<'' # w)) r)) s c
   = run (Seq (Lit (CHR ''<'' # w)) r) (dropWhile is_space s) c"
  using not_space_lt by (intro run_Seq_Star_Cls run_tag_rejects; blast)+

lemma name_group_tag:
  "run (Seq (Group n (rx_plus (Cls not_lt))) (Seq (Lit (CHR ''<'' # w)) r)) s c
   = (if takeWhile not_lt s = [] then []
      else run (Seq (Lit (CHR ''<'' # w)) r) (dropWhile not_lt s) ((n, takeWhile not_lt s) # c))"
  using not_not_lt_lt by (intro run_Seq_Group_plus_Cls run_tag_rejects; blast)

lemma dropWhile_all_then: "list_all p w \<Longrightarrow> \<not> p y \<Longrightarrow> dropWhile p (w @ y # t) = y # t"
  by (induction w) auto

lemma takeWhile_all_then: "list_all p w \<Longrightarrow> \<not> p y \<Longrightarrow> takeWhile p (w @ y # t) = w"
  by (induction w) auto

lemma is_hhmm_take_drop: "is_hhmm t \<Longrightarrow> take 5 (t @ X) = t \<and> drop 5 (t @ X) = X"
  by (auto simp: is_hhmm_iff)

lemma run_capture_block:
  assumes "strict_space w1" "strict_name n" "strict_space w2" "is_hhmm st" "strict_space w3"
    "is_hhmm en" "strict_space w4"
  shows "run capture_regex (event_text w1 n w2 st w3 en w4 @ rest) c
         = [((3, en) # (2, st) # (1, n) # c, rest)]"
proof -
  note sp = not_space_lt and nl = not_not_lt_lt
  from assms have w: "list_all is_space w1" "list_all is_space w2" "list_all is_space w3" "list_all is_space w4"
    and n: "n \<noteq> []" "list_all not_lt n"
    by (simp_all add: strict_space_def strict_name_def)
  show ?thesis
    unfolding capture_regex_def seqs.simps event_text_def
    by (simp add: run_Seq_Lit skip_space_tag name_group_tag run_Seq_Group_hhmm
        dropWhile_all_then[OF w(1) sp] dropWhile_all_then[OF w(2) sp]
        dropWhile_all_then[OF w(3) sp] dropWhile_all_then[OF w(4) sp]
        dropWhile_all_then[OF n(2) nl] takeWhile_all_then[OF n(2) nl] n(1)
        is_hhmm_length[OF assms(4)] is_hhmm_length[OF assms(6)] assms(4) assms(6)
        del: run.simps(3) run.simps(5))
qed

lemma in_run_Group_text:
  "(c', s') \<in> set (run (Group n a) s c) \<longleftrightarrow>
     (\<exists>c1 u. (c1, s') \<in> set (run a s c) \<and> s = u @ s' \<and> c' = (n, u) # c1)"
proof
  assume "(c', s') \<in> set (run (Group n a) s c)"
  then obtain c1 where c1: "(c1, s') \<in> set (run a s c)" "c' = (n, take (length s - length s') s) # c1"
    by (auto simp: in_run_Group)
  from run_sound[OF c1(1)] obtain u where "s = u @ s'" by blast
  with c1 show "\<exists>c1 u. (c1, s') \<in> set (run a s c) \<and> s = u @ s' \<and> c' = (n, u) # c1" by auto
next
  assume "\<exists>c1 u. (c1, s') \<in> set (run a s c) \<and> s = u @ s' \<and> c' = (n, u) # c1"
  then obtain c1 u where c1: "(c1, s') \<in> set (run a s c)" "s = u @ s'" "c' = (n, u) # c1" by blast
  from c1(2) have "take (length s - length s') s = u" by simp
  with c1 show "(c', s') \<in> set (run (Group n a) s c)" by (simp only: in_run_Group) blast
qed

lemma in_run_plus_Cls:
  "(c', s') \<in> set (run (rx_plus (Cls p)) s c) \<longleftrightarrow>
     c' = c \<and> (\<exists>u. s = u @ s' \<and> u \<noteq> [] \<and> list_all p u)"
proof
  assume "(c', s') \<in> set (run (rx_plus (Cls p)) s c)"
  then obtain x u where "s = x # u @ s'" "p x" "list_all p u" "c' = c"
    unfolding rx_plus_def in_run_Seq in_run_Cls in_run_Star_Cls by blast
  then have "s = (x # u) @ s' \<and> x # u \<noteq> [] \<and> list_all p (x # u)" by simp
  with \<open>c' = c\<close> show "c' = c \<and> (\<exists>u. s = u @ s' \<and> u \<noteq> [] \<and> list_all p u)" by blast
next
  assume "c' = c \<and> (\<exists>u. s = u @ s' \<and> u \<noteq> [] \<and> list_all p u)"
  then obtain x u where "s = x # u @ s'" "p x" "list_all p u" "c' = c"
    by (auto simp: neq_Nil_conv)
  then show "(c', s') \<in> set (run (rx_plus (Cls p)) s c)"
    unfolding rx_plus_def in_run_Seq in_run_Cls in_run_Star_Cls by blast
qed

lemma in_run_hhmm:
  "(c', s') \<in> set (run hhmm_rx s c) \<longleftrightarrow> c' = c \<and> (\<exists>t. s = t @ s' \<and> is_hhmm t)"
proof -
  have "is_hhmm (take 5 s) \<and> s' = drop 5 s \<longleftrightarrow> (\<exists>t. s = t @ s' \<and> is_hhmm t)"
    by (metis append_take_drop_id is_hhmm_take_drop)
  then show ?thesis by (auto simp: run_hhmm)
qed

lemma run_capture_sound:
  assumes "(c', s') \<in> set (run capture_regex s c)"
  shows "\<exists>w1 n w2 st w3 en w4.
           s = event_text w1 n w2 st w3 en w4 @ s' \<and> c' = (3, en) # (2, st) # (1, n) # c
           \<and> strict_space w1 \<and> strict_name n \<and> strict_space w2 \<and> is_hhmm st
           \<and> strict_space w3 \<and> is_hhmm en \<and> strict_space w4"
proof -
  from assms obtain w1 n w2 st w3 en w4 where
    "s = ''<event>'' @ w1 @ ''<name>'' @ n @ ''</name>'' @ w2 @ ''<start>'' @ st @ ''</start>'' @ w3
         @ ''<end>'' @ en @ ''</end>'' @ w4 @ ''</event>'' @ s'"
    "c' = (3, en) # (2, st) # (1, n) # c"
    "list_all is_space w1" "n \<noteq> []" "list_all not_lt n" "list_all is_space w2" "is_hhmm st"
    "list_all is_space w3" "is_hhmm en" "list_all is_space w4"
    unfolding capture_regex_def seqs.simps in_run_Seq in_run_Lit in_run_Star_Cls
      in_run_Group_text in_run_plus_Cls in_run_hhmm
    by blast
  then have "s = event_text w1 n w2 st w3 en w4 @ s' \<and> c' = (3, en) # (2, st) # (1, n) # c
           \<and> strict_space w1 \<and> strict_name n \<and> strict_space w2 \<and> is_hhmm st
           \<and> strict_space w3 \<and> is_hhmm en \<and> strict_space w4"
    by (simp add: event_text_def strict_space_def strict_name_def)
  then show ?thesis by blast
qed

subsection \<open>The extractor\<close>

lemma event_text_length: "0 < length (event_text w1 n w2 st w3 en w4)"
  by (simp add: event_text_def)

lemma finditer_block:
  assumes "strict_space w1" "strict_name n" "strict_space w2" "is_hhmm st" "strict_space w3"
    "is_hhmm en" "strict_space w4"
  shows "finditer capture_regex (event_text w1 n w2 st w3 en w4 @ rest)
         = [(3, en), (2, st), (1, n)] # finditer capture_regex rest"
  using event_text_length[of w1 n w2 st w3 en w4]
  by (subst finditer.simps) (simp add: run_capture_block[OF assms])

lemma get_events_block:
  assumes "strict_space w1" "strict_name n" "strict_space w2" "is_hhmm st" "strict_space w3"
    "is_hhmm en" "strict_space w4"
  shows "get_events (event_text w1 n w2 st w3 en w4 @ rest) = (n, st, en) # get_events rest"
  by (simp add: get_events_def finditer_block[OF assms] group_def)

lemma run_capture_empty: "\<not> block_at_head s \<Longrightarrow> run capture_regex s c = []"
proof (rule ccontr)
  assume nb: "\<not> block_at_head s" and ne: "run capture_regex s c \<noteq> []"
  then obtain c' s' where "(c', s') \<in> set (run capture_regex s c)"
    by (cases "run capture_regex s c") auto
  from run_capture_sound[OF this] have "block_at_head s" unfolding block_at_head_def by blast
  with nb show False by simp
qed

lemma get_events_skip: "\<not> block_at_head (x # t) \<Longrightarrow> get_events (x # t) = get_events t"
  unfolding get_events_def
  by (subst finditer.simps) (simp add: run_capture_empty)

lemma get_events_Nil: "get_events [] = []"
proof -
  have "run capture_regex [] [] = []" by (simp add: capture_regex_def)
  then show ?thesis unfolding get_events_def by (subst finditer.simps) simp
qed

lemma finditer_capture_ok:
  "list_all (\<lambda>m. event_ok (group m 1, group m 2, group m 3)) (finditer capture_regex s)"
proof (induction capture_regex s rule: finditer.induct)
  case (1 s)
  show ?case
  proof (cases "run capture_regex s []")
    case Nil
    with 1(1) show ?thesis by (subst finditer.simps) (auto split: list.splits)
  next
    case (Cons m ms)
    obtain c s' where m: "m = (c, s')" by (cases m)
    with Cons have "(c, s') \<in> set (run capture_regex s [])" by simp
    from run_capture_sound[OF this] have ok: "event_ok (group c 1, group c 2, group c 3)"
      by (auto simp: event_ok_def group_def)
    show ?thesis
    proof (cases "length s' < length s")
      case True
      from 1(2)[OF Cons m[symmetric] True] ok Cons m True show ?thesis
        by (subst finditer.simps) simp
    next
      case False
      from 1(3)[OF Cons m[symmetric] False] ok Cons m False show ?thesis
        by (subst finditer.simps) (auto split: list.splits)
    qed
  qed
qed

lemma get_events_ok: "list_all event_ok (get_events content)"
  using finditer_capture_ok[of content] by (simp add: get_events_def list_all_iff)

subsection \<open>Time conversion\<close>

lemma is_digit_facts:
  assumes "is_digit c"
  shows "c \<noteq> CHR '':''" "c \<noteq> CHR ''_''" "c \<noteq> CHR ''-''" "c \<noteq> CHR ''+''" "\<not> is_int_space c"
    "0 \<le> digit_value c" "digit_value c \<le> 9"
  using assms by (auto simp: is_digit_def is_int_space_def digit_value_def)

lemma py_int_two_digits:
  assumes "is_digit a" "is_digit b"
  shows "py_int [a, b] = Inr (10 * digit_value a + digit_value b)"
  using is_digit_facts[OF assms(1)] is_digit_facts[OF assms(2)] assms
  by (simp add: py_int_def strip_def unsigned_int_def decimal_value_def)

lemma split_colon_hhmm:
  assumes "is_digit a" "is_digit b" "is_digit d" "is_digit e"
  shows "split_colon [a, b, CHR '':'', d, e] = [[a, b], [d, e]]"
  using is_digit_facts(1)[OF assms(1)] is_digit_facts(1)[OF assms(2)]
    is_digit_facts(1)[OF assms(3)] is_digit_facts(1)[OF assms(4)]
  by simp

lemma time_to_minutes_hhmm:
  assumes "is_hhmm t"
  shows "time_to_minutes t = Inr (hhmm_minutes t)"
proof -
  from assms obtain a b d e where t: "t = [a, b, CHR '':'', d, e]"
    and dg: "is_digit a" "is_digit b" "is_digit d" "is_digit e"
    by (auto simp: is_hhmm_iff)
  show ?thesis
    unfolding t time_to_minutes_def split_colon_hhmm[OF dg]
    by (simp add: py_int_two_digits dg hhmm_minutes_def)
qed

lemma hhmm_minutes_bounds:
  assumes "is_hhmm t"
  shows "0 \<le> hhmm_minutes t \<and> hhmm_minutes t \<le> 6039"
proof -
  from assms obtain a b d e where t: "t = [a, b, CHR '':'', d, e]"
    and dg: "is_digit a" "is_digit b" "is_digit d" "is_digit e"
    by (auto simp: is_hhmm_iff)
  from is_digit_facts(6,7)[OF dg(1)] is_digit_facts(6,7)[OF dg(2)]
    is_digit_facts(6,7)[OF dg(3)] is_digit_facts(6,7)[OF dg(4)]
  show ?thesis unfolding t hhmm_minutes_def by simp
qed

lemma event_to_minutes_ok: "event_ok ev \<Longrightarrow> event_to_minutes ev = Inr (minutes_of ev)"
  by (auto simp: event_ok_def event_to_minutes_def minutes_of_def time_to_minutes_hhmm)

lemma mapE_Inr: "list_all (\<lambda>x. f x = Inr (g x)) xs \<Longrightarrow> mapE f xs = Inr (map g xs)"
  by (induction xs) auto

lemma mapE_event_to_minutes:
  "list_all event_ok evs \<Longrightarrow> mapE event_to_minutes evs = Inr (map minutes_of evs)"
  by (rule mapE_Inr) (simp add: list_all_iff event_to_minutes_ok)

subsection \<open>The guard of the scorer\<close>

lemma existing_events_length_le:
  "length (existing_events scheduled valid) \<le> length scheduled"
proof -
  have "length (existing_events scheduled valid)
        \<le> length (filter (\<lambda>(n, s, e). [n, s, e] \<in> set valid) scheduled)"
    unfolding existing_events_def by (rule length_remdups_leq)
  also have "\<dots> \<le> length scheduled" by (rule length_filter_le)
  finally show ?thesis .
qed

lemma existing_events_unmatched:
  assumes "ev \<in> set scheduled" "\<not> (case ev of (n, s, e) \<Rightarrow> [n, s, e] \<in> set valid)"
  shows "length (existing_events scheduled valid) < length scheduled"
proof -
  have "length (existing_events scheduled valid)
        \<le> length (filter (\<lambda>(n, s, e). [n, s, e] \<in> set valid) scheduled)"
    unfolding existing_events_def by (rule length_remdups_leq)
  also have "\<dots> < length scheduled" using assms by (intro length_filter_less)
  finally show ?thesis .
qed

lemma existing_events_duplicate:
  assumes "\<not> distinct scheduled"
  shows "length (existing_events scheduled valid) < length scheduled"
proof -
  have "length (existing_events scheduled valid) \<le> length (remdups scheduled)"
    unfolding existing_events_def remdups_filter by (rule length_filter_le)
  also have "\<dots> < length scheduled"
    using assms length_remdups_leq[of scheduled] length_remdups_eq[of scheduled]
    by (simp add: le_neq_implies_less)
  finally show ?thesis .
qed

lemma score_events_degenerate:
  "length (existing_events scheduled valid) < length scheduled
   \<or> length (existing_events scheduled valid) < 2
   \<Longrightarrow> score_events scheduled valid pri opt = Inr 0"
  by (auto simp: score_events_def Let_def)

subsection \<open>Evaluating the extractor on a given text\<close>

lemma block_at_head_Cons:
  "block_at_head (x # t) \<Longrightarrow> x = CHR ''<'' \<and> (\<exists>t'. t = CHR ''e'' # t')"
  by (auto simp: block_at_head_def event_text_def)

lemma get_events_skip_char: "x \<noteq> CHR ''<'' \<Longrightarrow> get_events (x # t) = get_events t"
  by (rule get_events_skip) (auto dest: block_at_head_Cons)

lemma get_events_skip_tag: "y \<noteq> CHR ''e'' \<Longrightarrow> get_events (CHR ''<'' # y # t) = get_events (y # t)"
  by (rule get_events_skip) (auto dest: block_at_head_Cons)

lemmas eval_events = get_events_skip_char get_events_skip_tag get_events_block get_events_Nil
  strict_space_def strict_name_def is_hhmm_def is_digit_def is_space_def not_lt_def

lemma get_events_B_C:
  "get_events candidate_B_C
   = [(''Sum 41 concert'', ''14:57'', ''15:27''), (''Korean BBQ food trucks'', ''16:21'', ''17:51'')]"
  unfolding candidate_B_C_def nl_def by (simp add: eval_events)

lemma hhmm_vals:
  "time_to_minutes ''14:57'' = Inr 897" "time_to_minutes ''15:27'' = Inr 927"
  "time_to_minutes ''16:21'' = Inr 981" "time_to_minutes ''17:51'' = Inr 1071"
  by (simp_all add: time_to_minutes_hhmm is_hhmm_def is_digit_def hhmm_minutes_def digit_value_def)

subsection \<open>The overlap loops\<close>

lemma overlaps_sym: "overlaps a b \<longleftrightarrow> overlaps b a"
  by (auto simp: overlaps_def)

lemma inner_loop_eq:
  "inner_loop x ys acc = acc \<union> {z. \<exists>y. y \<in> set ys \<and> overlaps x y \<and> (z = x \<or> z = y)}"
proof (induction ys arbitrary: acc)
  case Nil
  show ?case by simp
next
  case (Cons y ys)
  show ?case unfolding inner_loop.simps Cons
    by (rule set_eqI) (simp del: split_paired_Ex split_paired_All, blast)
qed

lemma ov_add_mset:
  "ov (add_mset x M) = {z. \<exists>y. y \<in># M \<and> overlaps x y \<and> (z = x \<or> z = y)} \<union> ov M"
proof (rule set_eqI)
  fix z
  show "z \<in> ov (add_mset x M) \<longleftrightarrow> z \<in> {z. \<exists>y. y \<in># M \<and> overlaps x y \<and> (z = x \<or> z = y)} \<union> ov M"
  proof (cases "z = x")
    case True
    have "y \<in># M - {#x#} \<Longrightarrow> y \<in># M" for y by (rule in_diffD)
    with True show ?thesis
      unfolding ov_def by (simp del: split_paired_Ex split_paired_All) blast
  next
    case False
    then have "add_mset x M - {#z#} = add_mset x (M - {#z#})" by simp
    with False show ?thesis using overlaps_sym[of x z]
      unfolding ov_def by (simp del: split_paired_Ex split_paired_All) blast
  qed
qed

lemma outer_loop_eq: "outer_loop xs acc = acc \<union> ov (mset xs)"
proof (induction xs arbitrary: acc)
  case Nil
  show ?case by (simp add: ov_def)
next
  case (Cons x xs)
  show ?case
    by (simp add: Cons inner_loop_eq ov_add_mset Un_assoc del: split_paired_Ex split_paired_All)
qed

lemma overlapping_events_eq: "overlapping_events xs = ov (mset xs)"
  by (simp add: overlapping_events_def outer_loop_eq)

lemma mset_surviving_events:
  "mset (surviving_events xs) = filter_mset (\<lambda>z. z \<notin> ov (mset xs)) (mset xs)"
  by (simp add: surviving_events_def overlapping_events_eq)

lemma weighted_sum_mset: "mset xs = mset ys \<Longrightarrow> weighted_sum pri xs = weighted_sum pri ys"
proof -
  assume "mset xs = mset ys"
  then have "sum_mset (image_mset (weight pri) (mset xs)) = sum_mset (image_mset (weight pri) (mset ys))"
    by simp
  then show ?thesis unfolding weighted_sum_def by (simp add: sum_mset_sum_list flip: mset_map)
qed

lemma surviving_events_perm:
  "mset xs = mset ys \<Longrightarrow> mset (surviving_events xs) = mset (surviving_events ys)"
  by (simp add: mset_surviving_events)

lemma score_order_irrelevant:
  "mset xs = mset ys \<Longrightarrow>
   weighted_sum pri (surviving_events xs) = weighted_sum pri (surviving_events ys)"
  by (intro weighted_sum_mset surviving_events_perm)

lemma mset_minus_nth:
  assumes "j < length xs"
  shows "y \<in># mset xs - {#xs ! j#} \<longleftrightarrow> (\<exists>k < length xs. k \<noteq> j \<and> xs ! k = y)"
proof -
  have xs: "xs = take j xs @ xs ! j # drop (Suc j) xs" using assms by (rule id_take_nth_drop)
  have "mset xs = add_mset (xs ! j) (mset (take j xs @ drop (Suc j) xs))"
    by (subst xs) simp
  then have "y \<in># mset xs - {#xs ! j#} \<longleftrightarrow> y \<in> set (take j xs) \<or> y \<in> set (drop (Suc j) xs)"
    by simp
  also have "\<dots> \<longleftrightarrow> (\<exists>k < length xs. k \<noteq> j \<and> xs ! k = y)"
  proof
    assume "y \<in> set (take j xs) \<or> y \<in> set (drop (Suc j) xs)"
    then show "\<exists>k < length xs. k \<noteq> j \<and> xs ! k = y"
    proof
      assume "y \<in> set (take j xs)"
      then obtain i where "i < length (take j xs)" "take j xs ! i = y" by (auto simp: in_set_conv_nth)
      then have "i < length xs \<and> i \<noteq> j \<and> xs ! i = y" using assms by simp
      then show ?thesis by blast
    next
      assume "y \<in> set (drop (Suc j) xs)"
      then obtain i where "i < length (drop (Suc j) xs)" "drop (Suc j) xs ! i = y" by (auto simp: in_set_conv_nth)
      then have "Suc j + i < length xs \<and> Suc j + i \<noteq> j \<and> xs ! (Suc j + i) = y" using assms by simp
      then show ?thesis by blast
    qed
  next
    assume "\<exists>k < length xs. k \<noteq> j \<and> xs ! k = y"
    then obtain k where k: "k < length xs" "k \<noteq> j" "xs ! k = y" by blast
    show "y \<in> set (take j xs) \<or> y \<in> set (drop (Suc j) xs)"
    proof (cases "k < j")
      case True
      with k have "take j xs ! k = y" "k < length (take j xs)" by simp_all
      then show ?thesis by (metis nth_mem)
    next
      case False
      with k have kk: "Suc j \<le> k" by simp
      with k have "drop (Suc j) xs ! (k - Suc j) = y" "k - Suc j < length (drop (Suc j) xs)" by simp_all
      then show ?thesis by (metis nth_mem)
    qed
  qed
  finally show ?thesis .
qed

subsection \<open>Sorted start times\<close>

lemma all_increasing_iff: "all_increasing xs \<longleftrightarrow> sorted_wrt (<) xs"
proof (induction xs rule: all_increasing.induct)
  case (1 x y rest)
  have "sorted_wrt (<) (x # y # rest) \<longleftrightarrow> x < y \<and> sorted_wrt (<) (y # rest)"
    by (auto simp: less_trans[of x y])
  with 1 show ?case by simp
qed simp_all

lemma sorted_content_eq:
  "sorted_content response
   = Inr (if 2 \<le> length (get_events response)
             \<and> sorted_wrt (<) (map (\<lambda>ev. fst (snd ev)) (map minutes_of (get_events response)))
          then 20 else 0)"
  using mapE_event_to_minutes[OF get_events_ok[of response]]
  by (auto simp: sorted_content_def Let_def all_increasing_iff)

subsection \<open>Substrings and the validator\<close>

lemma has_substring_iff: "has_substring w s \<longleftrightarrow> (\<exists>u v. s = u @ w @ v)"
proof (induction s)
  case Nil
  show ?case by auto
next
  case (Cons x t)
  have "take (length w) (x # t) = w \<longleftrightarrow> (\<exists>v. x # t = w @ v)"
    by (metis append_eq_conv_conj)
  moreover have "(\<exists>u v. x # t = u @ w @ v) \<longleftrightarrow> (\<exists>v. x # t = w @ v) \<or> (\<exists>u v. t = u @ w @ v)"
  proof
    assume "\<exists>u v. x # t = u @ w @ v"
    then obtain u v where uv: "x # t = u @ w @ v" by blast
    show "(\<exists>v. x # t = w @ v) \<or> (\<exists>u v. t = u @ w @ v)"
    proof (cases u)
      case Nil
      with uv show ?thesis by auto
    next
      case (Cons y u')
      with uv have "t = u' @ w @ v" by simp
      then show ?thesis by blast
    qed
  next
    assume "(\<exists>v. x # t = w @ v) \<or> (\<exists>u v. t = u @ w @ v)"
    then show "\<exists>u v. x # t = u @ w @ v"
    proof
      assume "\<exists>v. x # t = w @ v"
      then obtain v where "x # t = [] @ w @ v" by auto
      then show ?thesis by blast
    next
      assume "\<exists>u v. t = u @ w @ v"
      then obtain u v where "x # t = (x # u) @ w @ v" by auto
      then show ?thesis by blast
    qed
  qed
  ultimately show ?case using Cons by simp
qed

lemma well_formed_has_block: "well_formed_text text \<Longrightarrow> contains_event_block text"
proof -
  assume "well_formed_text text"
  then obtain t a b blocks c d where
    tx: "text = ''<think>'' @ t @ ''</think>'' @ a @ ''<schedule>'' @ b @ concat blocks @ c
               @ ''</schedule>'' @ d"
    and bl: "blocks \<noteq> []" "list_all loose_event_block blocks"
    unfolding well_formed_text_def by blast
  from bl obtain blk rest where blocks: "blocks = blk # rest" and blk: "loose_event_block blk"
    by (cases blocks) auto
  have "text = (''<think>'' @ t @ ''</think>'' @ a @ ''<schedule>'' @ b) @ blk
               @ (concat rest @ c @ ''</schedule>'' @ d)"
    unfolding tx blocks by simp
  with blk show ?thesis unfolding contains_event_block_def by blast
qed

lemma well_formed_has_close: "well_formed_text text \<Longrightarrow> has_substring ''</schedule>'' text"
proof -
  assume "well_formed_text text"
  then obtain t a b blocks c d where
    "text = ''<think>'' @ t @ ''</think>'' @ a @ ''<schedule>'' @ b @ concat blocks @ c
               @ ''</schedule>'' @ d"
    unfolding well_formed_text_def by blast
  then have "text = (''<think>'' @ t @ ''</think>'' @ a @ ''<schedule>'' @ b @ concat blocks @ c)
               @ ''</schedule>'' @ d"
    by simp
  then show ?thesis unfolding has_substring_iff by blast
qed

lemma event_block_has_tag: "contains_event_block text \<Longrightarrow> has_substring ''<event>'' text"
proof -
  assume "contains_event_block text"
  then obtain u b v x1 n x2 st x3 en x4 where "text = u @ b @ v" "b = event_text x1 n x2 st x3 en x4"
    unfolding contains_event_block_def loose_event_block_def by blast
  then have "text = u @ ''<event>'' @ (x1 @ ''<name>'' @ n @ ''</name>'' @ x2 @ ''<start>'' @ st
                      @ ''</start>'' @ x3 @ ''<end>'' @ en @ ''</end>'' @ x4 @ ''</event>'' @ v)"
    by (simp add: event_text_def)
  then show ?thesis unfolding has_substring_iff by blast
qed

lemma format_ok_intro:
  assumes "t \<noteq> []" "n \<noteq> []" "is_hhmm st" "is_hhmm en"
  shows "format_ok (''<think>'' @ t @ ''</think>'' @ a @ ''<schedule>'' @ b
                    @ event_text x1 n x2 st x3 en x4 @ c @ ''</schedule>'' @ d)"
proof -
  from assms have "loose_event_block (event_text x1 n x2 st x3 en x4)"
    unfolding loose_event_block_def by blast
  then have "[event_text x1 n x2 st x3 en x4] \<noteq> [] \<and> list_all loose_event_block [event_text x1 n x2 st x3 en x4]"
    by simp
  moreover have "''<think>'' @ t @ ''</think>'' @ a @ ''<schedule>'' @ b
                    @ event_text x1 n x2 st x3 en x4 @ c @ ''</schedule>'' @ d
        = ''<think>'' @ t @ ''</think>'' @ a @ ''<schedule>'' @ b
                    @ concat [event_text x1 n x2 st x3 en x4] @ c @ ''</schedule>'' @ d"
    by simp
  ultimately show ?thesis
    unfolding format_ok_iff well_formed_text_def using assms(1) by blast
qed

lemma format_ok_B_C: "format_ok candidate_B_C"
proof -
  have "candidate_B_C
        = ''<think>'' @ ''B then C'' @ ''</think>'' @ nl @ ''<schedule>''
          @ (nl @ event_text nl ''Sum 41 concert'' nl ''14:57'' nl ''15:27'' nl @ nl)
          @ event_text nl ''Korean BBQ food trucks'' nl ''16:21'' nl ''17:51'' nl @ nl
          @ ''</schedule>'' @ []"
    by (simp add: candidate_B_C_def)
  moreover have "format_ok \<dots>"
    by (rule format_ok_intro) (simp_all add: is_hhmm_def is_digit_def)
  ultimately show ?thesis by simp
qed

lemma no_close_unclosed: "\<not> has_substring ''</schedule>'' candidate_unclosed"
  by (simp add: candidate_unclosed_def event_text_def nl_def)

lemma no_event_tag: "\<not> has_substring ''<event>'' candidate_no_events"
  by (simp add: candidate_no_events_def nl_def)

subsection \<open>Time fields of extracted events\<close>

lemma get_events_block_only:
  assumes "strict_space w1" "strict_name n" "strict_space w2" "is_hhmm st" "strict_space w3"
    "is_hhmm en" "strict_space w4"
  shows "get_events (event_text w1 n w2 st w3 en w4) = [(n, st, en)]"
  using get_events_block[OF assms, of "[]"] by (simp add: get_events_Nil)

lemma hhmm_full_match: "(\<exists>c. (c, []) \<in> set (run hhmm_rx t [])) \<longleftrightarrow> is_hhmm t"
  by (simp add: in_run_hhmm)

lemma get_events_times_ok:
  "list_all (\<lambda>(n, st, en). is_hhmm st \<and> is_hhmm en) (get_events content)"
  using get_events_ok[of content] by (auto simp: list_all_iff event_ok_def)

lemma time_to_minutes_range:
  "is_hhmm t \<Longrightarrow> \<exists>m. time_to_minutes t = Inr m \<and> 0 \<le> m \<and> m \<le> 6039"
  using time_to_minutes_hhmm hhmm_minutes_bounds by blast

lemma single_block_iff:
  assumes "strict_name n"
  shows "get_events (event_text [] n [] st [] en []) = [(n, st, en)] \<longleftrightarrow> is_hhmm st \<and> is_hhmm en"
proof
  assume "get_events (event_text [] n [] st [] en []) = [(n, st, en)]"
  with get_events_times_ok[of "event_text [] n [] st [] en []"]
  show "is_hhmm st \<and> is_hhmm en" by simp
next
  assume "is_hhmm st \<and> is_hhmm en"
  with assms show "get_events (event_text [] n [] st [] en []) = [(n, st, en)]"
    by (intro get_events_block_only) (simp_all add: strict_space_def)
qed

subsection \<open>The scorer never raises\<close>

lemma existing_events_subset: "set (existing_events evs valid) \<subseteq> set evs"
  by (auto simp: existing_events_def)

lemma existing_events_ok: "list_all event_ok evs \<Longrightarrow> list_all event_ok (existing_events evs valid)"
  using existing_events_subset[of evs valid] by (auto simp: list_all_iff)

lemma score_events_eq:
  assumes "list_all event_ok evs" "opt \<noteq> 0"
  shows "score_events evs valid pri opt
         = Inr (if length (existing_events evs valid) < length evs \<or> length (existing_events evs valid) < 2
                then 0
                else real_of_int (weighted_sum pri (surviving_events (map minutes_of (existing_events evs valid))))
                     / real_of_int opt * 70)"
  using mapE_event_to_minutes[OF existing_events_ok[OF assms(1), of valid]] assms(2)
  by (simp add: score_events_def Let_def)

lemma score_content_total:
  "opt \<noteq> 0 \<Longrightarrow> \<exists>r. score_content content valid pri opt = Inr r"
  unfolding score_content_def using score_events_eq[OF get_events_ok] by blast

lemma mapE_total: "list_all (\<lambda>x. \<exists>y. f x = Inr y) xs \<Longrightarrow> \<exists>ys. mapE f xs = Inr ys"
  by (induction xs) auto

lemma score_reward_total:
  assumes "list_all (\<lambda>opt. opt \<noteq> 0) optimal_score"
  shows "\<exists>scores. score_reward responses events priority_events optimal_score = Inr scores"
  unfolding score_reward_def
proof (rule mapE_total, unfold list_all_iff, rule ballI)
  fix x assume "x \<in> set (zip responses (zip events (zip priority_events optimal_score)))"
  then obtain content valid pri opt where x: "x = (content, valid, pri, opt)"
    and "opt \<in> set optimal_score"
    by (metis in_set_zipE prod.exhaust)
  with assms have "opt \<noteq> 0" by (simp add: list_all_iff)
  from score_content_total[OF this, of content valid pri] x
  show "\<exists>y. (case x of (content, valid_events, priorities, opt_score) \<Rightarrow>
               score_content content valid_events priorities opt_score) = Inr y"
    by simp
qed

subsection \<open>Malformed blocks\<close>

lemma get_events_skip_run:
  "run capture_regex (x # t) [] = [] \<Longrightarrow> get_events (x # t) = get_events t"
  unfolding get_events_def by (subst finditer.simps) simp

lemma get_events_skip_prefix:
  "take 7 (x # t) \<noteq> ''<event>'' \<Longrightarrow> get_events (x # t) = get_events t"
proof (rule get_events_skip, rule notI)
  assume a: "take 7 (x # t) \<noteq> ''<event>''" and "block_at_head (x # t)"
  then obtain r where "x # t = ''<event>'' @ r"
    unfolding block_at_head_def event_text_def by auto
  then have "take 7 (x # t) = ''<event>''" by simp
  with a show False by simp
qed

lemma run_capture_bad_time:
  "\<not> is_hhmm (take 5 s) \<Longrightarrow> strict_name n \<Longrightarrow>
   run capture_regex (''<event>'' @ ''<name>'' @ n @ ''</name>'' @ ''<start>'' @ s) c = []"
  unfolding capture_regex_def seqs.simps
  by (simp add: run_Seq_Lit skip_space_tag name_group_tag run_Seq_Group_hhmm strict_name_def
      takeWhile_all_then[where p = not_lt and y = "CHR ''<''"]
      dropWhile_all_then[where p = not_lt and y = "CHR ''<''"] not_not_lt_lt is_space_def
      del: run.simps(3) run.simps(5))

lemma run_capture_no_start:
  "strict_name n \<Longrightarrow>
   run capture_regex (''<event>'' @ ''<name>'' @ n @ ''</name>'' @ ''</event>'' @ s) c = []"
  unfolding capture_regex_def seqs.simps
  by (simp add: run_Seq_Lit skip_space_tag name_group_tag run_Seq_Group_hhmm strict_name_def
      takeWhile_all_then[where p = not_lt and y = "CHR ''<''"]
      dropWhile_all_then[where p = not_lt and y = "CHR ''<''"] not_not_lt_lt is_space_def
      del: run.simps(3) run.simps(5))

lemma get_events_bad_block:
  "get_events candidate_bad_block
   = [(''Sum 41 concert'', ''14:57'', ''15:27''), (''Korean BBQ food trucks'', ''16:21'', ''17:51'')]"
proof -
  have 1: "get_events (''<event>'' @ ''<name>'' @ ''Fireworks'' @ ''</name>'' @ ''<start>'' @ ''8:48</start><end>10:48</end></event>'' @ r)
           = get_events (''event>'' @ ''<name>'' @ ''Fireworks'' @ ''</name>'' @ ''<start>'' @ ''8:48</start><end>10:48</end></event>'' @ r)" for r
    using run_capture_bad_time[of "''8:48</start><end>10:48</end></event>'' @ r" "''Fireworks''" "[]"]
    by (simp add: get_events_skip_run is_hhmm_def strict_name_def not_lt_def)
  have 2: "get_events (''<event>'' @ ''<name>'' @ ''Jam session'' @ ''</name>'' @ ''</event>'' @ r)
           = get_events (''event>'' @ ''<name>'' @ ''Jam session'' @ ''</name>'' @ ''</event>'' @ r)" for r
    using run_capture_no_start[of "''Jam session''" r "[]"]
    by (simp add: get_events_skip_run strict_name_def not_lt_def)
  have e1: "event_text [] ''Fireworks'' [] ''8:48'' [] ''10:48'' [] @ r
        = ''<event>'' @ ''<name>'' @ ''Fireworks'' @ ''</name>'' @ ''<start>'' @ ''8:48</start><end>10:48</end></event>'' @ r" for r
    by (simp add: event_text_def)
  have e2: "''<event><name>Jam session</name></event>'' @ r
        = ''<event>'' @ ''<name>'' @ ''Jam session'' @ ''</name>'' @ ''</event>'' @ r" for r
    by simp
  have s1: "get_events (event_text [] ''Fireworks'' [] ''8:48'' [] ''10:48'' [] @ r) = get_events r" for r
    unfolding e1 1 by (simp add: get_events_skip_char get_events_skip_tag get_events_skip_prefix)
  have s2: "get_events (''<event><name>Jam session</name></event>'' @ r) = get_events r" for r
    unfolding e2 2 by (simp add: get_events_skip_char get_events_skip_tag get_events_skip_prefix)
  have b: "get_events (event_text nl n nl st nl en nl @ r) = (n, st, en) # get_events r"
    if "strict_name n" "is_hhmm st" "is_hhmm en" for n st en r
    using that by (intro get_events_block) (simp_all add: strict_space_def nl_def is_space_def)
  have k: "get_events (event_text nl ''Korean BBQ food trucks'' nl ''16:21'' nl ''17:51'' nl)
           = [(''Korean BBQ food trucks'', ''16:21'', ''17:51'')]"
    by (rule get_events_block_only)
       (simp_all add: strict_space_def nl_def is_space_def strict_name_def not_lt_def is_hhmm_def is_digit_def)
  have "get_events candidate_bad_block
        = get_events (event_text [] ''Fireworks'' [] ''8:48'' [] ''10:48'' []
           @ event_text nl ''Sum 41 concert'' nl ''14:57'' nl ''15:27'' nl
           @ ''<event><name>Jam session</name></event>''
           @ event_text nl ''Korean BBQ food trucks'' nl ''16:21'' nl ''17:51'' nl)"
    unfolding candidate_bad_block_def by (simp add: get_events_skip_char get_events_skip_tag)
  also have "\<dots> = (''Sum 41 concert'', ''14:57'', ''15:27'')
        # get_events (''<event><name>Jam session</name></event>''
           @ event_text nl ''Korean BBQ food trucks'' nl ''16:21'' nl ''17:51'' nl)"
    unfolding s1 by (rule b) (simp_all add: strict_name_def not_lt_def is_hhmm_def is_digit_def)
  finally show ?thesis unfolding s2 k .
qed

lemma get_events_unclosed:
  "get_events candidate_unclosed
   = [(''Sum 41 concert'', ''14:57'', ''15:27''), (''Korean BBQ food trucks'', ''16:21'', ''17:51'')]"
  unfolding candidate_unclosed_def nl_def by (simp add: eval_events)

lemma score_unclosed:
  "score_content candidate_unclosed fixture_events fixture_priorities 285 = Inr (150 / 285 * 70)"
  by (simp add: score_content_def get_events_unclosed score_events_def existing_events_def
      fixture_events_def fixture_priorities_def event_to_minutes_def hhmm_vals
      surviving_events_def overlapping_events_def overlaps_def weighted_sum_def weight_def)

subsection \<open>Survivors and the optimum\<close>

lemma set_existing_events:
  "set (existing_events evs valid) = {ev \<in> set evs. case ev of (n, s, e) \<Rightarrow> [n, s, e] \<in> set valid}"
  by (auto simp: existing_events_def)

lemma distinct_existing_events: "distinct (existing_events evs valid)"
  by (simp add: existing_events_def)

lemma reference_event_ok:
  "event_ok (n, s, e) \<Longrightarrow> reference_event [n, s, e] = Some (minutes_of (n, s, e))"
  by (simp add: reference_event_def event_ok_def time_to_minutes_hhmm minutes_of_def)

lemma set_map_filter: "set (List.map_filter f xs) = {y. \<exists>x \<in> set xs. f x = Some y}"
  by (induction xs) (auto split: option.splits)

lemma existing_minutes_in_reference:
  assumes "reference_ok valid" "list_all event_ok evs"
    and "m \<in> set (map minutes_of (existing_events evs valid))"
  shows "m \<in> set (reference_events valid) \<and> fst (snd m) < snd (snd m)"
proof -
  from assms(3) obtain ev where ev: "ev \<in> set (existing_events evs valid)" "m = minutes_of ev"
    by auto
  obtain n s e where nse: "ev = (n, s, e)" by (cases ev)
  from ev(1) nse have v: "[n, s, e] \<in> set valid" and "ev \<in> set evs"
    by (simp_all add: set_existing_events)
  with assms(2) nse have "event_ok (n, s, e)" by (simp add: list_all_iff)
  from reference_event_ok[OF this] ev(2) nse have r: "reference_event [n, s, e] = Some m" by simp
  with v have "m \<in> set (reference_events valid)"
    unfolding reference_events_def set_remdups set_map_filter by blast
  moreover from assms(1) v r have "fst (snd m) < snd (snd m)"
    by (auto simp: reference_ok_def list_all_iff)
  ultimately show ?thesis by simp
qed

lemma not_overlaps_not_conflict: "\<not> overlaps a b \<Longrightarrow> \<not> spec_conflict a b"
  by (auto simp: overlaps_def spec_conflict_def)

lemma overlaps_self: "fst (snd z) \<le> snd (snd z) \<Longrightarrow> overlaps z z"
  by (simp add: overlaps_def)

lemma surviving_subset: "set (surviving_events xs) \<subseteq> set xs"
  by (auto simp: surviving_events_def)

lemma surviving_not_ov: "z \<in> set (surviving_events xs) \<Longrightarrow> z \<in> set xs \<and> z \<notin> ov (mset xs)"
  by (simp add: surviving_events_def overlapping_events_eq)

lemma surviving_distinct:
  assumes "\<And>z. z \<in> set xs \<Longrightarrow> fst (snd z) \<le> snd (snd z)"
  shows "distinct (surviving_events xs)"
proof -
  have "count (mset (surviving_events xs)) z \<le> 1" for z
  proof (cases "z \<in> ov (mset xs)")
    case True
    then show ?thesis by (simp add: mset_surviving_events)
  next
    case False
    have "count (mset xs) z \<le> 1"
    proof (rule ccontr)
      assume "\<not> count (mset xs) z \<le> 1"
      then have c: "2 \<le> count (mset xs) z" by simp
      then have "z \<in> set xs" by (metis count_eq_zero_iff not_numeral_le_zero set_mset_mset)
      from overlaps_self[OF assms[OF this]] have "overlaps z z" .
      moreover from c have "z \<in># mset xs - {#z#}" by (simp add: in_diff_count)
      moreover from \<open>z \<in> set xs\<close> have "z \<in># mset xs" by simp
      ultimately have "z \<in> ov (mset xs)" unfolding ov_def by blast
      with False show False by simp
    qed
    then show ?thesis by (simp add: mset_surviving_events)
  qed
  then show ?thesis unfolding distinct_count_atmost_1
    by (metis count_eq_zero_iff le_neq_implies_less less_one set_mset_mset)
qed

lemma surviving_pairwise:
  assumes "a \<in> set (surviving_events xs)" "b \<in> set (surviving_events xs)" "a \<noteq> b"
  shows "\<not> overlaps a b"
proof
  assume o: "overlaps a b"
  from surviving_not_ov[OF assms(1)] have a: "a \<in># mset xs" "a \<notin> ov (mset xs)" by simp_all
  from surviving_not_ov[OF assms(2)] have "b \<in># mset xs" by simp
  with assms(3) have "b \<in># mset xs - {#a#}" by (simp add: in_diff_count)
  with a(1) o have "a \<in> ov (mset xs)" unfolding ov_def by blast
  with a(2) show False by simp
qed

lemma conflict_free_pairwise:
  "distinct xs \<Longrightarrow> (\<And>a b. a \<in> set xs \<Longrightarrow> b \<in> set xs \<Longrightarrow> a \<noteq> b \<Longrightarrow> \<not> spec_conflict a b)
   \<Longrightarrow> conflict_free xs"
proof (induction xs)
  case Nil
  show ?case by simp
next
  case (Cons x xs)
  from Cons.prems(1) have d: "x \<notin> set xs" "distinct xs" by simp_all
  have "list_all (\<lambda>y. \<not> spec_conflict x y) xs"
    unfolding list_all_iff using Cons.prems(2)[of x] d(1) by auto
  moreover have "conflict_free xs"
    using Cons.IH[OF d(2)] Cons.prems(2) by simp
  ultimately show ?case by simp
qed

lemma in_set_mapI: "x \<in> set xs \<Longrightarrow> f x \<in> set (map f xs)"
  by simp

lemma weighted_sum_le_optimum:
  assumes "set surv \<subseteq> set (reference_events valid)" "distinct surv"
    and "\<And>a b. a \<in> set surv \<Longrightarrow> b \<in> set surv \<Longrightarrow> a \<noteq> b \<Longrightarrow> \<not> spec_conflict a b"
  shows "weighted_sum pri surv \<le> true_optimum valid pri"
proof -
  define sub where "sub = filter (\<lambda>z. z \<in> set surv) (reference_events valid)"
  have ds: "distinct sub" unfolding sub_def reference_events_def by simp
  have ss: "set sub = set surv" unfolding sub_def using assms(1) by auto
  from ds assms(2) ss have ms: "mset sub = mset surv" by (simp add: set_eq_iff_mset_eq_distinct)
  have cf: "conflict_free sub"
    by (rule conflict_free_pairwise[OF ds]) (simp add: ss assms(3))
  have "sub \<in> set (subseqs (reference_events valid))" unfolding sub_def by simp
  with cf have "sub \<in> set (filter conflict_free (subseqs (reference_events valid)))"
    by simp
  then have "weighted_sum pri sub
      \<in> set (map (weighted_sum pri) (filter conflict_free (subseqs (reference_events valid))))"
    by (rule in_set_mapI)
  then have "weighted_sum pri sub \<le> true_optimum valid pri"
    unfolding true_optimum_def by (rule Max_ge[OF finite_set])
  with weighted_sum_mset[OF ms, of pri] show ?thesis by simp
qed

lemma weight_sign:
  "fst (snd m) \<le> snd (snd m) \<Longrightarrow> 0 \<le> weight pri m"
  "fst (snd m) < snd (snd m) \<Longrightarrow> 0 < weight pri m"
  by (simp_all add: weight_def)

lemma weighted_sum_nonneg:
  "(\<And>m. m \<in> set ms \<Longrightarrow> fst (snd m) \<le> snd (snd m)) \<Longrightarrow> 0 \<le> weighted_sum pri ms"
  unfolding weighted_sum_def by (rule sum_list_nonneg) (auto simp: weight_sign)

lemma optimum_positive:
  assumes "m \<in> set (reference_events valid)" "fst (snd m) < snd (snd m)"
  shows "0 < true_optimum valid pri"
proof -
  from assms(1) have "[m] \<in> set (subseqs (reference_events valid))"
    by (simp add: subseq_singleton_left)
  moreover have "conflict_free [m]" by simp
  ultimately have "[m] \<in> set (filter conflict_free (subseqs (reference_events valid)))"
    by simp
  then have "weighted_sum pri [m]
      \<in> set (map (weighted_sum pri) (filter conflict_free (subseqs (reference_events valid))))"
    by (rule in_set_mapI)
  then have "weighted_sum pri [m] \<le> true_optimum valid pri"
    unfolding true_optimum_def by (rule Max_ge[OF finite_set])
  moreover have "0 < weighted_sum pri [m]" using weight_sign(2)[OF assms(2)] by (simp add: weighted_sum_def)
  ultimately show ?thesis by simp
qed

subsection \<open>Bounds of the score\<close>

lemma score_bounds:
  assumes "reference_ok valid" "list_all event_ok evs"
    and nd: "\<not> (length (existing_events evs valid) < length evs \<or> length (existing_events evs valid) < 2)"
  shows "0 \<le> weighted_sum pri (surviving_events (map minutes_of (existing_events evs valid)))"
    and "weighted_sum pri (surviving_events (map minutes_of (existing_events evs valid)))
         \<le> true_optimum valid pri"
    and "0 < true_optimum valid pri"
proof -
  let ?mins = "map minutes_of (existing_events evs valid)"
  let ?surv = "surviving_events ?mins"
  have ref: "m \<in> set (reference_events valid) \<and> fst (snd m) < snd (snd m)" if "m \<in> set ?mins" for m
    using existing_minutes_in_reference[OF assms(1,2) that] .
  have le: "fst (snd m) \<le> snd (snd m)" if "m \<in> set ?mins" for m
    using ref[OF that] by simp
  have sub: "set ?surv \<subseteq> set ?mins" by (rule surviving_subset)
  show "0 \<le> weighted_sum pri ?surv"
    by (rule weighted_sum_nonneg) (use sub le in blast)
  have "set ?surv \<subseteq> set (reference_events valid)" using sub ref by blast
  moreover have "distinct ?surv" by (rule surviving_distinct) (rule le)
  moreover have "\<not> spec_conflict a b" if "a \<in> set ?surv" "b \<in> set ?surv" "a \<noteq> b" for a b
    using surviving_pairwise[OF that] by (rule not_overlaps_not_conflict)
  ultimately show "weighted_sum pri ?surv \<le> true_optimum valid pri"
    by (rule weighted_sum_le_optimum)
  from nd have "existing_events evs valid \<noteq> []" by auto
  then have "minutes_of (hd (existing_events evs valid)) \<in> set ?mins" by simp
  from ref[OF this] show "0 < true_optimum valid pri" using optimum_positive by blast
qed

lemma fixture_times:
  "time_to_minutes ''01:06'' = Inr 66" "time_to_minutes ''01:21'' = Inr 81"
  "time_to_minutes ''08:48'' = Inr 528" "time_to_minutes ''10:48'' = Inr 648"
  "time_to_minutes ''14:31'' = Inr 871" "time_to_minutes ''15:31'' = Inr 931"
  by (simp_all add: time_to_minutes_hhmm is_hhmm_def is_digit_def hhmm_minutes_def digit_value_def)

lemma reference_ok_fixture: "reference_ok fixture_events"
  by (simp add: reference_ok_def fixture_events_def reference_event_def fixture_times hhmm_vals)

lemma reference_events_fixture:
  "reference_events fixture_events
   = [(''Backstage tour VIP pass'', 66, 81), (''Sum 41 concert'', 897, 927),
      (''Korean BBQ food trucks'', 981, 1071), (''Fireworks'', 528, 648), (''Jam session'', 871, 931)]"
  by (simp add: reference_events_def fixture_events_def reference_event_def fixture_times hhmm_vals)

lemma true_optimum_fixture: "true_optimum fixture_events fixture_priorities = 285"
  unfolding true_optimum_def reference_events_fixture
  by (simp add: spec_conflict_def weighted_sum_def weight_def fixture_priorities_def Let_def)

subsection \<open>Adding an event\<close>

lemma existing_events_insert:
  assumes "case ev of (n, s, e) \<Rightarrow> [n, s, e] \<in> set valid" "ev \<notin> set (xs @ ys)"
  shows "mset (existing_events (xs @ ev # ys) valid) = add_mset ev (mset (existing_events (xs @ ys) valid))"
proof -
  have "ev \<notin> set (existing_events (xs @ ys) valid)"
    using assms(2) existing_events_subset[of "xs @ ys" valid] by blast
  then have d: "distinct (ev # existing_events (xs @ ys) valid)"
    by (simp add: distinct_existing_events)
  have "set (existing_events (xs @ ev # ys) valid) = set (ev # existing_events (xs @ ys) valid)"
    using assms(1) by (auto simp: set_existing_events)
  with d distinct_existing_events[of "xs @ ev # ys" valid]
  have "mset (existing_events (xs @ ev # ys) valid) = mset (ev # existing_events (xs @ ys) valid)"
    by (simp only: set_eq_iff_mset_eq_distinct)
  then show ?thesis by simp
qed

lemma surviving_add_compatible:
  assumes "mset mins' = add_mset m (mset mins)"
    and "\<And>y. y \<in> set mins \<Longrightarrow> \<not> overlaps m y"
  shows "mset (surviving_events mins') = add_mset m (mset (surviving_events mins))"
proof -
  have no: "\<not> (y \<in># mset mins \<and> overlaps m y)" for y using assms(2)[of y] by simp
  have "ov (add_mset m (mset mins)) = ov (mset mins)"
    unfolding ov_add_mset using no by blast
  moreover have "m \<notin> ov (mset mins)"
  proof
    assume "m \<in> ov (mset mins)"
    then obtain y where "y \<in># mset mins - {#m#}" "overlaps m y" unfolding ov_def by blast
    then have "y \<in># mset mins \<and> overlaps m y" by (auto dest: in_diffD)
    with no show False by blast
  qed
  ultimately show ?thesis
    unfolding mset_surviving_events assms(1) by simp
qed

lemma abcd_times:
  "time_to_minutes ''10:00'' = Inr 600" "time_to_minutes ''11:00'' = Inr 660"
  "time_to_minutes ''12:00'' = Inr 720" "time_to_minutes ''13:00'' = Inr 780"
  "time_to_minutes ''14:00'' = Inr 840" "time_to_minutes ''11:30'' = Inr 690"
  "time_to_minutes ''12:30'' = Inr 750"
  by (simp_all add: time_to_minutes_hhmm is_hhmm_def is_digit_def hhmm_minutes_def digit_value_def)

lemmas eval_score = score_events_def existing_events_def event_to_minutes_def
  surviving_events_def overlapping_events_def overlaps_def weighted_sum_def weight_def

subsection \<open>Texts made of pieces\<close>

lemma get_events_skip_junk: "CHR ''<'' \<notin> set j \<Longrightarrow> get_events (j @ s) = get_events s"
proof (induction j)
  case Nil
  show ?case by simp
next
  case (Cons a j)
  then have "a \<noteq> CHR ''<''" "get_events (j @ s) = get_events s" by auto
  with get_events_skip_char[of a "j @ s"] show ?case by simp
qed

lemma get_events_pieces:
  "list_all piece_ok ps \<Longrightarrow> get_events (concat (map render ps)) = concat (map triples ps)"
proof (induction ps)
  case Nil
  show ?case by (simp add: get_events_Nil)
next
  case (Cons p ps)
  then have ih: "get_events (concat (map render ps)) = concat (map triples ps)" by simp
  show ?case
  proof (cases p)
    case (Junk j)
    with Cons.prems ih show ?thesis by (simp add: get_events_skip_junk)
  next
    case (Block w1 n w2 st w3 en w4)
    with Cons.prems ih show ?thesis by (simp add: get_events_block)
  qed
qed

section \<open>The claims\<close>

subsection \<open>Overlap elimination\<close>

text \<open>
  C1, as the specification states it, fails: the loop tests
  \<open>start j \<le> end k\<close> and \<open>end j \<ge> start k\<close>, so two events that only touch
  (10:00 to 11:00 and 11:00 to 12:00) are both removed, although their intervals share
  no more than a point.
\<close>

theorem touching_events_both_removed:
  "surviving_events [(''A'', 600, 660), (''B'', 660, 720)] = []
   \<and> \<not> spec_conflict (''A'', 600, 660) (''B'', 660, 720)
   \<and> score_events [(''A'', ''10:00'', ''11:00''), (''B'', ''11:00'', ''12:00'')]
        [[''A'', ''10:00'', ''11:00''], [''B'', ''11:00'', ''12:00'']] [] 120 = Inr 0"
  by (simp add: surviving_events_def overlapping_events_def overlaps_def spec_conflict_def
      score_events_def existing_events_def event_to_minutes_def time_to_minutes_hhmm
      is_hhmm_def is_digit_def hhmm_minutes_def digit_value_def weighted_sum_def)

text \<open>
  C1, amended: a retained event survives the overlap elimination if and only if no other
  retained event meets it as a closed interval (\<open>a.start \<le> b.end\<close> and
  \<open>b.start \<le> a.end\<close>, touching ends included); so of every pair of retained events
  that meet in this sense both are removed.
\<close>

theorem overlap_elimination_closed_intervals:
  assumes "j < length xs"
  shows "xs ! j \<in> set (surviving_events xs) \<longleftrightarrow>
         \<not> (\<exists>k < length xs. k \<noteq> j
               \<and> fst (snd (xs ! j)) \<le> snd (snd (xs ! k))
               \<and> fst (snd (xs ! k)) \<le> snd (snd (xs ! j)))"
proof -
  have "xs ! j \<in> set (surviving_events xs) \<longleftrightarrow> xs ! j \<notin> ov (mset xs)"
    using assms by (simp add: surviving_events_def overlapping_events_eq)
  also have "\<dots> \<longleftrightarrow> \<not> (\<exists>y. y \<in># mset xs - {#xs ! j#} \<and> overlaps (xs ! j) y)"
    using assms by (simp add: ov_def)
  also have "\<dots> \<longleftrightarrow> \<not> (\<exists>k < length xs. k \<noteq> j \<and> overlaps (xs ! j) (xs ! k))"
    unfolding mset_minus_nth[OF assms] by blast
  finally show ?thesis by (simp add: overlaps_def)
qed

theorem overlap_elimination_closed_intervals_witness:
  "(0 :: nat) < length touching_events
   \<and> touching_events ! 0 \<notin> set (surviving_events touching_events)
   \<and> (2 :: nat) < length touching_events
   \<and> touching_events ! 2 \<in> set (surviving_events touching_events)"
proof -
  have l0: "(0 :: nat) < length touching_events" and l2: "(2 :: nat) < length touching_events"
    by (simp_all add: touching_events_def)
  have "\<exists>k < length touching_events. k \<noteq> 0
          \<and> fst (snd (touching_events ! 0)) \<le> snd (snd (touching_events ! k))
          \<and> fst (snd (touching_events ! k)) \<le> snd (snd (touching_events ! 0))"
    by (rule exI[of _ 1]) (simp add: touching_events_def)
  with overlap_elimination_closed_intervals[OF l0]
  have a: "touching_events ! 0 \<notin> set (surviving_events touching_events)" by blast
  have "\<not> (\<exists>k < length touching_events. k \<noteq> 2
          \<and> fst (snd (touching_events ! 2)) \<le> snd (snd (touching_events ! k))
          \<and> fst (snd (touching_events ! k)) \<le> snd (snd (touching_events ! 2)))"
  proof
    assume "\<exists>k < length touching_events. k \<noteq> 2
          \<and> fst (snd (touching_events ! 2)) \<le> snd (snd (touching_events ! k))
          \<and> fst (snd (touching_events ! k)) \<le> snd (snd (touching_events ! 2))"
    then obtain k where k: "k < length touching_events" "k \<noteq> 2"
      and m: "fst (snd (touching_events ! 2)) \<le> snd (snd (touching_events ! k))"
      by blast
    from k have "k = 0 \<or> k = 1" by (simp add: touching_events_def) arith
    with m show False by (auto simp: touching_events_def)
  qed
  with overlap_elimination_closed_intervals[OF l2]
  have b: "touching_events ! 2 \<in> set (surviving_events touching_events)" by blast
  from l0 a l2 b show ?thesis by blast
qed

subsection \<open>The zero policy\<close>

text \<open>
  C2: a text with an extracted event that is no entry of the reference list, or with
  fewer than two events left by the membership filter, gets the score 0, whatever else
  it holds.
\<close>

theorem zero_on_unmatched_or_too_few:
  "(\<exists>ev \<in> set (get_events content). \<not> (case ev of (n, s, e) \<Rightarrow> [n, s, e] \<in> set valid_events))
   \<or> length (existing_events (get_events content) valid_events) < 2
   \<Longrightarrow> score_content content valid_events priorities opt_score = Inr 0"
  unfolding score_content_def
  by (rule score_events_degenerate) (auto dest: existing_events_unmatched)

theorem zero_on_unmatched_or_too_few_witness:
  "(\<exists>ev \<in> set (get_events candidate_ghost).
      \<not> (case ev of (n, s, e) \<Rightarrow> [n, s, e] \<in> set fixture_events))
   \<and> score_content candidate_ghost fixture_events fixture_priorities 285 = Inr 0
   \<and> length (existing_events (get_events ''no events'') fixture_events) < 2
   \<and> score_content ''no events'' fixture_events fixture_priorities 285 = Inr 0"
proof -
  have g: "get_events candidate_ghost
           = [(''Sum 41 concert'', ''14:57'', ''15:27''), (''Secret show'', ''18:00'', ''19:00'')]"
    unfolding candidate_ghost_def nl_def by (simp add: eval_events)
  have h1: "\<exists>ev \<in> set (get_events candidate_ghost).
              \<not> (case ev of (n, s, e) \<Rightarrow> [n, s, e] \<in> set fixture_events)"
    unfolding g by (simp add: fixture_events_def)
  have "get_events ''no events'' = []" by (simp add: eval_events)
  then have h2: "length (existing_events (get_events ''no events'') fixture_events) < 2"
    by (simp add: existing_events_def)
  from h1 h2
    zero_on_unmatched_or_too_few[of candidate_ghost fixture_events fixture_priorities 285]
    zero_on_unmatched_or_too_few[of "''no events''" fixture_events fixture_priorities 285]
  show ?thesis by blast
qed

text \<open>
  C9: a text that lists an event twice gets the score 0, also when every event of it is
  a reference event: the set of the matching events is smaller than the list of the
  extracted ones.
\<close>

theorem duplicate_event_scores_zero:
  "\<not> distinct (get_events content)
   \<Longrightarrow> length (existing_events (get_events content) valid_events) < length (get_events content)
       \<and> score_content content valid_events priorities opt_score = Inr 0"
  unfolding score_content_def
  using existing_events_duplicate score_events_degenerate by blast

theorem duplicate_event_scores_zero_witness:
  "\<not> distinct (get_events candidate_B_C_B)
   \<and> list_all (\<lambda>(n, s, e). [n, s, e] \<in> set fixture_events) (get_events candidate_B_C_B)
   \<and> 2 \<le> length (remdups (get_events candidate_B_C_B))
   \<and> length (existing_events (get_events candidate_B_C_B) fixture_events)
       < length (get_events candidate_B_C_B)
   \<and> score_content candidate_B_C_B fixture_events fixture_priorities 285 = Inr 0"
proof -
  have g: "get_events candidate_B_C_B
           = [(''Sum 41 concert'', ''14:57'', ''15:27''),
              (''Korean BBQ food trucks'', ''16:21'', ''17:51''),
              (''Sum 41 concert'', ''14:57'', ''15:27'')]"
    unfolding candidate_B_C_B_def nl_def by (simp add: eval_events)
  have h: "\<not> distinct (get_events candidate_B_C_B)" unfolding g by simp
  have v: "list_all (\<lambda>(n, s, e). [n, s, e] \<in> set fixture_events) (get_events candidate_B_C_B)"
    unfolding g by (simp add: fixture_events_def)
  have d: "2 \<le> length (remdups (get_events candidate_B_C_B))" unfolding g by simp
  from h v d duplicate_event_scores_zero[OF h, of fixture_events fixture_priorities 285]
  show ?thesis by blast
qed

subsection \<open>The documented example\<close>

text \<open>
  C3: against the five reference events of the example, with the optimal score 285, the
  text that lists the second and the third event in order has the weighted sum
  \<open>2 * 30 + 90 = 150\<close> (the weight of an event is twice its minutes where its name is a
  priority name, its minutes otherwise) and gets 70 times \<open>150 / 285\<close>, a ratio between
  0.526 and 0.527.
\<close>

theorem fixture_candidate_B_C_score:
  "get_events candidate_B_C
     = [(''Sum 41 concert'', ''14:57'', ''15:27''), (''Korean BBQ food trucks'', ''16:21'', ''17:51'')]
   \<and> weight fixture_priorities (''Sum 41 concert'', 897, 927) = 2 * 30
   \<and> weight fixture_priorities (''Korean BBQ food trucks'', 981, 1071) = 90
   \<and> weighted_sum fixture_priorities
        (surviving_events [(''Sum 41 concert'', 897, 927), (''Korean BBQ food trucks'', 981, 1071)]) = 150
   \<and> score_content candidate_B_C fixture_events fixture_priorities 285 = Inr (150 / 285 * 70)
   \<and> (0.526 :: real) < 150 / 285 \<and> (150 :: real) / 285 < 0.527"
  by (simp add: score_content_def get_events_B_C score_events_def existing_events_def
      fixture_events_def fixture_priorities_def event_to_minutes_def hhmm_vals
      surviving_events_def overlapping_events_def overlaps_def weighted_sum_def weight_def)

subsection \<open>The sorted signal\<close>

text \<open>
  C7: the sorted signal is positive (20) if and only if the text yields at least two
  extracted events whose start times, in the order of extraction, increase strictly; with
  fewer than two extracted events it is 0. The conversion of the times never raises.
\<close>

theorem sorted_signal_iff:
  "\<exists>r ms. sorted_content response = Inr r
      \<and> mapE event_to_minutes (get_events response) = Inr ms
      \<and> (0 < r \<longleftrightarrow> 2 \<le> length (get_events response) \<and> sorted_wrt (<) (map (\<lambda>ev. fst (snd ev)) ms))
      \<and> (length (get_events response) < 2 \<longrightarrow> r = 0)
      \<and> (r = 0 \<or> r = 20)"
  using mapE_event_to_minutes[OF get_events_ok[of response]]
  by (simp add: sorted_content_eq)

theorem sorted_signal_iff_witness:
  "sorted_content candidate_B_C = Inr 20
   \<and> mapE event_to_minutes (get_events candidate_B_C)
       = Inr [(''Sum 41 concert'', 897, 927), (''Korean BBQ food trucks'', 981, 1071)]
   \<and> sorted_content candidate_C_B = Inr 0
   \<and> length (get_events ''<think>none</think>'') < 2
   \<and> sorted_content ''<think>none</think>'' = Inr 0"
proof -
  have m: "mapE event_to_minutes (get_events candidate_B_C)
       = Inr [(''Sum 41 concert'', 897, 927), (''Korean BBQ food trucks'', 981, 1071)]"
    by (simp add: get_events_B_C event_to_minutes_def hhmm_vals)
  have g: "get_events candidate_C_B
           = [(''Korean BBQ food trucks'', ''16:21'', ''17:51''), (''Sum 41 concert'', ''14:57'', ''15:27'')]"
    unfolding candidate_C_B_def nl_def by (simp add: eval_events)
  have m2: "mapE event_to_minutes (get_events candidate_C_B)
       = Inr [(''Korean BBQ food trucks'', 981, 1071), (''Sum 41 concert'', 897, 927)]"
    by (simp add: g event_to_minutes_def hhmm_vals)
  have e: "get_events ''<think>none</think>'' = []" by (simp add: eval_events)
  from sorted_signal_iff[of candidate_B_C] obtain r ms where
    r: "sorted_content candidate_B_C = Inr r"
       "mapE event_to_minutes (get_events candidate_B_C) = Inr ms"
       "0 < r \<longleftrightarrow> 2 \<le> length (get_events candidate_B_C) \<and> sorted_wrt (<) (map (\<lambda>ev. fst (snd ev)) ms)"
       "r = 0 \<or> r = 20"
    by blast
  from r(2) m have "ms = [(''Sum 41 concert'', 897, 927), (''Korean BBQ food trucks'', 981, 1071)]"
    by simp
  with r(3) have "0 < r" by (simp add: get_events_B_C)
  with r(1,4) have a: "sorted_content candidate_B_C = Inr 20" by auto
  from sorted_signal_iff[of candidate_C_B] obtain r' ms' where
    r': "sorted_content candidate_C_B = Inr r'"
       "mapE event_to_minutes (get_events candidate_C_B) = Inr ms'"
       "0 < r' \<longleftrightarrow> 2 \<le> length (get_events candidate_C_B) \<and> sorted_wrt (<) (map (\<lambda>ev. fst (snd ev)) ms')"
       "r' = 0 \<or> r' = 20"
    by blast
  from r'(2) m2 have "ms' = [(''Korean BBQ food trucks'', 981, 1071), (''Sum 41 concert'', 897, 927)]"
    by simp
  with r'(3) have "\<not> 0 < r'" by (simp add: g)
  with r'(1,4) have b: "sorted_content candidate_C_B = Inr 0" by auto
  from sorted_signal_iff[of "''<think>none</think>''"] e
  have c: "sorted_content ''<think>none</think>'' = Inr 0" by auto
  from a m b c e show ?thesis by simp
qed

subsection \<open>The format validator\<close>

text \<open>
  C4: the validator accepts a text only if it starts with a think block that is not
  empty, followed by a schedule block with one event block or more, each with a name, a
  start time and an end time in that order; a text without an event block, and a text
  without the closing schedule tag (with or without the opening one), are rejected.
\<close>

theorem format_valid_only_if_well_formed:
  "(format_ok response \<longrightarrow> well_formed_text response)
   \<and> (\<not> contains_event_block response \<longrightarrow> \<not> format_ok response)
   \<and> (\<not> has_substring ''</schedule>'' response \<longrightarrow> \<not> format_ok response)
   \<and> format_reward [response] = [if format_ok response then 10 else 0]"
  using well_formed_has_block[of response] well_formed_has_close[of response]
  by (auto simp: format_ok_iff format_reward_def)

theorem format_valid_only_if_well_formed_witness:
  "format_ok candidate_B_C \<and> well_formed_text candidate_B_C
   \<and> \<not> contains_event_block candidate_no_events \<and> \<not> format_ok candidate_no_events
   \<and> has_substring ''<schedule>'' candidate_unclosed
   \<and> \<not> has_substring ''</schedule>'' candidate_unclosed \<and> \<not> format_ok candidate_unclosed
   \<and> format_reward [candidate_unclosed] = [0]"
proof -
  have a: "\<not> contains_event_block candidate_no_events"
    using event_block_has_tag no_event_tag by blast
  have o: "has_substring ''<schedule>'' candidate_unclosed"
    by (simp add: candidate_unclosed_def event_text_def nl_def)
  from format_ok_B_C a o no_close_unclosed
    format_valid_only_if_well_formed[of candidate_B_C]
    format_valid_only_if_well_formed[of candidate_no_events]
    format_valid_only_if_well_formed[of candidate_unclosed]
  show ?thesis by simp
qed

subsection \<open>Time fields\<close>

text \<open>
  C5, as the specification states it, fails: both patterns accept any two digits on each
  side of the colon, so \<^verbatim>\<open>99:99\<close> is extracted and validated, and it converts to
  6039 minutes, outside the day. Nor does the conversion reject every other text:
  \<^verbatim>\<open>7:5\<close> converts to 425.
\<close>

theorem time_99_99_accepted:
  "get_events (event_text [] ''X'' [] ''99:99'' [] ''99:99'' []) = [(''X'', ''99:99'', ''99:99'')]
   \<and> format_ok (''<think>'' @ ''x'' @ ''</think>'' @ [] @ ''<schedule>'' @ []
                 @ event_text [] ''X'' [] ''99:99'' [] ''99:99'' [] @ [] @ ''</schedule>'' @ [])
   \<and> time_to_minutes ''99:99'' = Inr 6039 \<and> \<not> (6039 :: int) < 1440
   \<and> time_to_minutes ''7:5'' = Inr 425"
proof -
  have h: "is_hhmm ''99:99''" by (simp add: is_hhmm_def is_digit_def)
  have "get_events (event_text [] ''X'' [] ''99:99'' [] ''99:99'' []) = [(''X'', ''99:99'', ''99:99'')]"
    by (rule get_events_block_only) (simp_all add: h strict_space_def strict_name_def not_lt_def)
  moreover have "format_ok (''<think>'' @ ''x'' @ ''</think>'' @ [] @ ''<schedule>'' @ []
                 @ event_text [] ''X'' [] ''99:99'' [] ''99:99'' [] @ [] @ ''</schedule>'' @ [])"
    by (rule format_ok_intro) (simp_all add: h)
  moreover have "time_to_minutes ''99:99'' = Inr 6039"
    by (simp add: time_to_minutes_hhmm h hhmm_minutes_def digit_value_def)
  moreover have "time_to_minutes ''7:5'' = Inr 425"
    by (simp add: time_to_minutes_def py_int_def strip_def is_int_space_def unsigned_int_def
        is_digit_def decimal_value_def digit_value_def)
  ultimately show ?thesis by simp
qed

text \<open>
  C5, amended: the time pattern of the validator and of the extractor matches exactly the
  texts of two digits, a colon and two digits, with no bound on the hour or the minute;
  each time field of each extracted event has this shape and converts to a number of
  minutes from 0 to 6039; a block whose time field has another shape is not extracted,
  and no error is raised.
\<close>

theorem time_fields_two_digits:
  "((\<exists>c. (c, []) \<in> set (run hhmm_rx t [])) \<longleftrightarrow> is_hhmm t)
   \<and> list_all (\<lambda>(n, st, en). is_hhmm st \<and> is_hhmm en) (get_events content)
   \<and> (is_hhmm t \<longrightarrow> (\<exists>m. time_to_minutes t = Inr m \<and> 0 \<le> m \<and> m \<le> 6039))
   \<and> (strict_name n \<longrightarrow>
        (get_events (event_text [] n [] st [] en []) = [(n, st, en)] \<longleftrightarrow> is_hhmm st \<and> is_hhmm en))"
  using hhmm_full_match get_events_times_ok time_to_minutes_range single_block_iff by blast

theorem time_fields_two_digits_witness:
  "is_hhmm ''23:59'' \<and> (\<exists>c. (c, []) \<in> set (run hhmm_rx ''23:59'' []))
   \<and> (\<exists>m. time_to_minutes ''23:59'' = Inr m \<and> 0 \<le> m \<and> m \<le> 6039)
   \<and> strict_name ''X''
   \<and> get_events (event_text [] ''X'' [] ''23:59'' [] ''23:59'' []) = [(''X'', ''23:59'', ''23:59'')]
   \<and> \<not> is_hhmm ''9:00''
   \<and> get_events (event_text [] ''X'' [] ''9:00'' [] ''23:59'' []) \<noteq> [(''X'', ''9:00'', ''23:59'')]"
proof -
  have h: "is_hhmm ''23:59''" by (simp add: is_hhmm_def is_digit_def)
  have n: "strict_name ''X''" by (simp add: strict_name_def not_lt_def)
  have b: "\<not> is_hhmm ''9:00''" by (simp add: is_hhmm_def)
  from h n b
    time_fields_two_digits[of "''23:59''" "[]" "''X''" "''23:59''" "''23:59''"]
    time_fields_two_digits[of "''23:59''" "[]" "''X''" "''9:00''" "''23:59''"]
  show ?thesis by blast
qed

subsection \<open>Totality\<close>

text \<open>
  C6: for every text and an optimal score that is not zero, the scorer returns a score
  and raises nothing. The extractor returns the well-formed blocks in the order in which
  they stand: of a text that starts with a well-formed block it returns that block's name
  and times and then the events of the rest; at every other place it moves on by one
  character; so of a text made of well-formed blocks and of stretches without
  \<^verbatim>\<open><\<close> it returns the blocks in their order. The score is that of the extracted
  events, whether the format is valid or not.
\<close>

theorem scorer_total_extractor_skips:
  assumes "opt_score \<noteq> 0"
  shows "(\<exists>r. score_content content valid_events priorities opt_score = Inr r)
       \<and> get_events [] = []
       \<and> (strict_space w1 \<and> strict_name n \<and> strict_space w2 \<and> is_hhmm st \<and> strict_space w3
            \<and> is_hhmm en \<and> strict_space w4
          \<longrightarrow> get_events (event_text w1 n w2 st w3 en w4 @ rest) = (n, st, en) # get_events rest)
       \<and> (\<not> block_at_head (x # t) \<longrightarrow> get_events (x # t) = get_events t)
       \<and> (list_all piece_ok ps \<longrightarrow> get_events (concat (map render ps)) = concat (map triples ps))"
  using score_content_total[OF assms] get_events_Nil get_events_block get_events_skip
    get_events_pieces by blast

theorem scorer_total_extractor_skips_witness:
  "(285 :: int) \<noteq> 0
   \<and> (\<exists>r. score_content candidate_unclosed fixture_events fixture_priorities 285 = Inr r)
   \<and> \<not> format_ok candidate_unclosed
   \<and> score_content candidate_unclosed fixture_events fixture_priorities 285 = Inr (150 / 285 * 70)
   \<and> strict_space nl \<and> strict_name ''Sum 41 concert'' \<and> is_hhmm ''14:57'' \<and> is_hhmm ''15:27''
   \<and> get_events (event_text nl ''Sum 41 concert'' nl ''14:57'' nl ''15:27'' nl @ ''</schedule>'')
       = (''Sum 41 concert'', ''14:57'', ''15:27'') # get_events ''</schedule>''
   \<and> \<not> block_at_head ''</schedule>''
   \<and> get_events ''</schedule>'' = get_events ''/schedule>''
   \<and> get_events candidate_bad_block
       = [(''Sum 41 concert'', ''14:57'', ''15:27''), (''Korean BBQ food trucks'', ''16:21'', ''17:51'')]
   \<and> list_all piece_ok pieces_B_C
   \<and> get_events (concat (map render pieces_B_C))
       = [(''Sum 41 concert'', ''14:57'', ''15:27''), (''Korean BBQ food trucks'', ''16:21'', ''17:51'')]"
proof -
  have o: "(285 :: int) \<noteq> 0" by simp
  have p: "list_all piece_ok pieces_B_C"
    by (simp add: pieces_B_C_def strict_space_def nl_def is_space_def strict_name_def not_lt_def
        is_hhmm_def is_digit_def)
  have q: "concat (map triples pieces_B_C)
           = [(''Sum 41 concert'', ''14:57'', ''15:27''), (''Korean BBQ food trucks'', ''16:21'', ''17:51'')]"
    by (simp add: pieces_B_C_def)
  have w: "strict_space nl" "strict_name ''Sum 41 concert''" "is_hhmm ''14:57''" "is_hhmm ''15:27''"
    by (simp_all add: strict_space_def nl_def is_space_def strict_name_def not_lt_def is_hhmm_def is_digit_def)
  have nb: "\<not> block_at_head ''</schedule>''" by (auto dest: block_at_head_Cons)
  have nf: "\<not> format_ok candidate_unclosed"
    using no_close_unclosed well_formed_has_close format_ok_iff by blast
  note t = scorer_total_extractor_skips[OF o, of candidate_unclosed fixture_events fixture_priorities
      nl "''Sum 41 concert''" nl "''14:57''" nl "''15:27''" nl "''</schedule>''" "CHR ''<''" "''/schedule>''"
      pieces_B_C]
  from t o w nb nf p q score_unclosed get_events_bad_block show ?thesis by simp
qed

subsection \<open>Adding an event\<close>

text \<open>
  C8, as the specification states it, fails: B (11:00 to 12:00) shares no more than a
  point with A (10:00 to 11:00) and nothing with C, yet adding B to the candidate A, C
  removes A together with B and lowers the score from 120 to 60 weighted minutes.
\<close>

theorem adding_touching_event_decreases:
  "score_events [ev_A, ev_C] abcd_events [] 180 = Inr (120 / 180 * 70)
   \<and> score_events [ev_A, ev_B, ev_C] abcd_events [] 180 = Inr (60 / 180 * 70)
   \<and> (60 / 180 * 70 :: real) < 120 / 180 * 70
   \<and> [''B'', ''11:00'', ''12:00''] \<in> set abcd_events
   \<and> ev_B \<notin> set [ev_A, ev_C]
   \<and> \<not> spec_conflict (''B'', 660, 720) (''A'', 600, 660)
   \<and> \<not> spec_conflict (''B'', 660, 720) (''C'', 780, 840)"
  by (simp add: eval_score ev_A_def ev_B_def ev_C_def abcd_events_def abcd_times spec_conflict_def)

text \<open>
  C8, amended: where the reference events end after they start and the optimal score is
  positive, adding to a candidate a reference event that is not in it and that meets no
  event of it as a closed interval (touching ends count as meeting) never lowers the
  score. The candidate is a list of events as the extractor returns them, and the event
  may be added at any place of it.
\<close>

theorem adding_compatible_event_monotone:
  assumes "reference_ok valid_events" "0 < opt_score"
    and "list_all event_ok (xs @ ev # ys)"
    and "case ev of (n, s, e) \<Rightarrow> [n, s, e] \<in> set valid_events"
    and "ev \<notin> set (xs @ ys)"
    and "list_all (\<lambda>x. \<not> overlaps (minutes_of ev) (minutes_of x)) (xs @ ys)"
  shows "\<exists>r r'. score_events (xs @ ys) valid_events priorities opt_score = Inr r
           \<and> score_events (xs @ ev # ys) valid_events priorities opt_score = Inr r'
           \<and> r \<le> r'"
proof -
  let ?E = "existing_events (xs @ ys) valid_events"
  let ?E' = "existing_events (xs @ ev # ys) valid_events"
  let ?sum = "weighted_sum priorities (surviving_events (map minutes_of ?E))"
  let ?sum' = "weighted_sum priorities (surviving_events (map minutes_of ?E'))"
  let ?deg = "length ?E < length (xs @ ys) \<or> length ?E < 2"
  let ?deg' = "length ?E' < length (xs @ ev # ys) \<or> length ?E' < 2"
  from assms(3) have ok: "list_all event_ok (xs @ ys)" and ok': "list_all event_ok (xs @ ev # ys)"
    by simp_all
  from assms(2) have o: "opt_score \<noteq> 0" by simp
  note r = score_events_eq[OF ok o, of valid_events priorities]
  note r' = score_events_eq[OF ok' o, of valid_events priorities]
  have ms: "mset ?E' = add_mset ev (mset ?E)" by (rule existing_events_insert[OF assms(4,5)])
  then have "size (mset ?E') = size (add_mset ev (mset ?E))" by simp
  then have len: "length ?E' = Suc (length ?E)" by simp
  have pos: "0 \<le> real_of_int s / real_of_int opt_score * 70" if "0 \<le> s" for s
    using that assms(2) by simp
  have mono: "real_of_int s / real_of_int opt_score * 70 \<le> real_of_int s' / real_of_int opt_score * 70"
    if "s \<le> s'" for s s'
    using that assms(2) by (simp add: divide_right_mono)
  have "(if ?deg then 0 else real_of_int ?sum / real_of_int opt_score * 70)
        \<le> (if ?deg' then 0 else real_of_int ?sum' / real_of_int opt_score * 70)"
  proof (cases ?deg)
    case True
    show ?thesis
    proof (cases ?deg')
      case True
      with \<open>?deg\<close> show ?thesis by simp
    next
      case False
      from score_bounds(1)[OF assms(1) ok' False, of priorities] have "0 \<le> ?sum'" .
      from pos[OF this] True False show ?thesis by simp
    qed
  next
    case False
    then have "length (xs @ ys) \<le> length ?E" "2 \<le> length ?E" by linarith+
    then have "length (xs @ ev # ys) \<le> Suc (length ?E)" "2 \<le> Suc (length ?E)" by simp_all
    then have nd': "\<not> ?deg'" unfolding len by linarith
    have mm: "mset (map minutes_of ?E') = add_mset (minutes_of ev) (mset (map minutes_of ?E))"
      unfolding mset_map ms by simp
    have no: "\<not> overlaps (minutes_of ev) y" if "y \<in> set (map minutes_of ?E)" for y
    proof -
      from that obtain x where "x \<in> set ?E" "y = minutes_of x" by auto
      with existing_events_subset[of "xs @ ys" valid_events] assms(6)
      show ?thesis by (auto simp: list_all_iff)
    qed
    from surviving_add_compatible[OF mm no]
    have "mset (surviving_events (map minutes_of ?E'))
        = mset (minutes_of ev # surviving_events (map minutes_of ?E))"
      by simp
    from weighted_sum_mset[OF this, of priorities]
    have s: "?sum' = weight priorities (minutes_of ev) + ?sum" by (simp add: weighted_sum_def)
    have "minutes_of ev \<in> set (map minutes_of ?E')"
      using ms by (metis image_eqI set_map set_mset_mset union_single_eq_member)
    from existing_minutes_in_reference[OF assms(1) ok' this]
    have "0 \<le> weight priorities (minutes_of ev)" by (simp add: weight_sign(1))
    with s have "?sum \<le> ?sum'" by simp
    from mono[OF this] False nd' show ?thesis by simp
  qed
  with r r' show ?thesis by simp
qed

theorem adding_compatible_event_monotone_witness:
  "reference_ok abcd_events \<and> (0 :: int) < 180
   \<and> list_all event_ok ([ev_A] @ ev_D # [ev_C])
   \<and> (case ev_D of (n, s, e) \<Rightarrow> [n, s, e] \<in> set abcd_events)
   \<and> ev_D \<notin> set ([ev_A] @ [ev_C])
   \<and> list_all (\<lambda>x. \<not> overlaps (minutes_of ev_D) (minutes_of x)) ([ev_A] @ [ev_C])
   \<and> (\<exists>r r'. score_events ([ev_A] @ [ev_C]) abcd_events [] 180 = Inr r
           \<and> score_events ([ev_A] @ ev_D # [ev_C]) abcd_events [] 180 = Inr r'
           \<and> r \<le> r')"
proof -
  have 1: "reference_ok abcd_events"
    by (simp add: reference_ok_def abcd_events_def reference_event_def abcd_times)
  have 2: "(0 :: int) < 180" by simp
  have 3: "list_all event_ok ([ev_A] @ ev_D # [ev_C])"
    by (simp add: event_ok_def ev_A_def ev_D_def ev_C_def strict_name_def not_lt_def is_hhmm_def is_digit_def)
  have 4: "case ev_D of (n, s, e) \<Rightarrow> [n, s, e] \<in> set abcd_events"
    by (simp add: ev_D_def abcd_events_def)
  have 5: "ev_D \<notin> set ([ev_A] @ [ev_C])" by (simp add: ev_A_def ev_D_def ev_C_def)
  have 6: "list_all (\<lambda>x. \<not> overlaps (minutes_of ev_D) (minutes_of x)) ([ev_A] @ [ev_C])"
    by (simp add: overlaps_def minutes_of_def ev_A_def ev_D_def ev_C_def hhmm_minutes_def digit_value_def)
  from adding_compatible_event_monotone[OF 1 2 3 4 5 6, of "[]"] 1 2 3 4 5 6
  show ?thesis by blast
qed

subsection \<open>The optimum bounds the reward\<close>

text \<open>
  C10: where the reference events end after they start and the optimal score is the
  largest weighted sum of a conflict-free subset of them, the scorer returns a reward
  from 0 to 70, that is, a ratio of at most 1: the events that survive the overlap
  elimination are such a subset.
\<close>

theorem reward_at_most_optimum:
  assumes "reference_ok valid_events" "opt_score = true_optimum valid_events priorities"
  shows "\<exists>r. score_content content valid_events priorities opt_score = Inr r \<and> 0 \<le> r \<and> r \<le> 70"
proof (cases "length (existing_events (get_events content) valid_events) < length (get_events content)
              \<or> length (existing_events (get_events content) valid_events) < 2")
  case True
  from score_events_degenerate[OF True] show ?thesis by (simp add: score_content_def)
next
  case False
  let ?sum = "weighted_sum priorities
                (surviving_events (map minutes_of (existing_events (get_events content) valid_events)))"
  from score_bounds[OF assms(1) get_events_ok False, of priorities] assms(2)
  have b: "0 \<le> ?sum" "?sum \<le> opt_score" "0 < opt_score" by simp_all
  then have "opt_score \<noteq> 0" by simp
  from score_events_eq[OF get_events_ok this, of content valid_events priorities] False
  have r: "score_content content valid_events priorities opt_score
           = Inr (real_of_int ?sum / real_of_int opt_score * 70)"
    by (simp add: score_content_def)
  define q where "q = real_of_int ?sum / real_of_int opt_score"
  from b have q: "0 \<le> q" "q \<le> 1" unfolding q_def by simp_all
  from q(1) have "0 \<le> q * 70" by (rule mult_nonneg_nonneg) simp
  moreover from q(2) have "q * 70 \<le> 1 * 70" by (rule mult_right_mono) simp
  ultimately have "0 \<le> q * 70 \<and> q * 70 \<le> 70" by simp
  with r show ?thesis unfolding q_def by blast
qed

theorem reward_at_most_optimum_witness:
  "reference_ok fixture_events \<and> (285 :: int) = true_optimum fixture_events fixture_priorities
   \<and> (\<exists>r. score_content candidate_B_C fixture_events fixture_priorities 285 = Inr r
           \<and> 0 \<le> r \<and> r \<le> 70)"
  using reward_at_most_optimum[OF reference_ok_fixture true_optimum_fixture[symmetric], of candidate_B_C]
    reference_ok_fixture true_optimum_fixture
  by simp


end
